theory Spec2Isabelle
  imports Main "HOL-Library.AList"
begin

section \<open>Python strings\<close>

text \<open>
  The script \<^verbatim>\<open>scripts/process_screenshots.py\<close> works on Python \<^verbatim>\<open>str\<close> values. A
  string is modelled as a list of characters, and a character as a code point in the
  range 0..255 (the Latin-1 block of Unicode, which is what an eight-bit \<^typ>\<open>char\<close> can
  hold). The string methods below follow CPython on that range; code points above 255 are
  outside the model.
\<close>

abbreviation TAB :: char where "TAB \<equiv> CHR 0x09"
abbreviation LF :: char where "LF \<equiv> CHR 0x0A"
abbreviation CR :: char where "CR \<equiv> CHR 0x0D"
abbreviation COMMA :: char where "COMMA \<equiv> CHR '',''"
abbreviation SPACE :: char where "SPACE \<equiv> CHR '' ''"
abbreviation QUOTE :: char where "QUOTE \<equiv> CHR 0x22"

text \<open>\<^verbatim>\<open>str.isspace\<close> on one character: the code points below 256 that Python counts as
  whitespace (\<^verbatim>\<open>\t \n \v \f \r\<close>, the separators 0x1C..0x1F, the space, NEL 0x85 and the
  no-break space 0xA0).\<close>

definition isspace :: "char \<Rightarrow> bool" where
  "isspace c = (c \<in> set [CHR 0x09, CHR 0x0A, CHR 0x0B, CHR 0x0C, CHR 0x0D,
      CHR 0x1C, CHR 0x1D, CHR 0x1E, CHR 0x1F, CHR 0x20, CHR 0x85, CHR 0xA0])"

text \<open>The line boundaries of \<^verbatim>\<open>str.splitlines\<close> below 256 (\<^verbatim>\<open>\r\n\<close> counts as one).\<close>

definition is_linebreak :: "char \<Rightarrow> bool" where
  "is_linebreak c = (c \<in> set [CHR 0x0A, CHR 0x0B, CHR 0x0C, CHR 0x0D,
      CHR 0x1C, CHR 0x1D, CHR 0x1E, CHR 0x85])"

definition str_lstrip :: "string \<Rightarrow> string" where
  "str_lstrip s = dropWhile isspace s"

definition str_rstrip :: "string \<Rightarrow> string" where
  "str_rstrip s = rev (dropWhile isspace (rev s))"

text \<open>\<^verbatim>\<open>s.strip()\<close>\<close>

definition str_strip :: "string \<Rightarrow> string" where
  "str_strip s = str_rstrip (str_lstrip s)"

text \<open>\<^verbatim>\<open>s.rstrip(chars)\<close>\<close>

definition str_rstrip_chars :: "string \<Rightarrow> string \<Rightarrow> string" where
  "str_rstrip_chars chars s = rev (dropWhile (\<lambda>c. c \<in> set chars) (rev s))"

text \<open>\<^verbatim>\<open>s.splitlines()\<close>: the first argument is the line read so far. A line is closed at
  every boundary; what is left at the end of the string is a line only when it is not
  empty.\<close>

fun splitlines_from :: "string \<Rightarrow> string \<Rightarrow> string list" where
  "splitlines_from cur [] = (if cur = [] then [] else [cur])"
| "splitlines_from cur (c # cs) =
     (if c = CR then
        (case cs of
           [] \<Rightarrow> [cur]
         | c' # cs' \<Rightarrow> if c' = LF then cur # splitlines_from [] cs'
                       else cur # splitlines_from [] cs)
      else if is_linebreak c then cur # splitlines_from [] cs
      else splitlines_from (cur @ [c]) cs)"

definition str_splitlines :: "string \<Rightarrow> string list" where
  "str_splitlines s = splitlines_from [] s"

text \<open>\<^verbatim>\<open>sep.join(xs)\<close>\<close>

fun str_join :: "string \<Rightarrow> string list \<Rightarrow> string" where
  "str_join sep [] = []"
| "str_join sep [x] = x"
| "str_join sep (x # y # ys) = x @ sep @ str_join sep (y # ys)"

text \<open>\<^verbatim>\<open>s.lower()\<close>: below 256 the cased letters are A..Z and 0xC0..0xDE without the
  multiplication sign 0xD7; each is mapped 32 code points up.\<close>

definition upper_chars :: string where
  "upper_chars = ''ABCDEFGHIJKLMNOPQRSTUVWXYZ'' @
     [CHR 0xC0, CHR 0xC1, CHR 0xC2, CHR 0xC3, CHR 0xC4, CHR 0xC5, CHR 0xC6, CHR 0xC7,
      CHR 0xC8, CHR 0xC9, CHR 0xCA, CHR 0xCB, CHR 0xCC, CHR 0xCD, CHR 0xCE, CHR 0xCF,
      CHR 0xD0, CHR 0xD1, CHR 0xD2, CHR 0xD3, CHR 0xD4, CHR 0xD5, CHR 0xD6,
      CHR 0xD8, CHR 0xD9, CHR 0xDA, CHR 0xDB, CHR 0xDC, CHR 0xDD, CHR 0xDE]"

definition lower_chars :: string where
  "lower_chars = ''abcdefghijklmnopqrstuvwxyz'' @
     [CHR 0xE0, CHR 0xE1, CHR 0xE2, CHR 0xE3, CHR 0xE4, CHR 0xE5, CHR 0xE6, CHR 0xE7,
      CHR 0xE8, CHR 0xE9, CHR 0xEA, CHR 0xEB, CHR 0xEC, CHR 0xED, CHR 0xEE, CHR 0xEF,
      CHR 0xF0, CHR 0xF1, CHR 0xF2, CHR 0xF3, CHR 0xF4, CHR 0xF5, CHR 0xF6,
      CHR 0xF8, CHR 0xF9, CHR 0xFA, CHR 0xFB, CHR 0xFC, CHR 0xFD, CHR 0xFE]"

definition lower_char :: "char \<Rightarrow> char" where
  "lower_char c = (case map_of (zip upper_chars lower_chars) c of Some l \<Rightarrow> l | None \<Rightarrow> c)"

definition str_lower :: "string \<Rightarrow> string" where
  "str_lower s = map lower_char s"

text \<open>\<^verbatim>\<open>s.startswith(p)\<close>\<close>

definition str_startswith :: "string \<Rightarrow> string \<Rightarrow> bool" where
  "str_startswith s p = (take (length p) s = p)"

text \<open>\<^verbatim>\<open>str(n)\<close> for an integer, as an f-string renders it.\<close>

fun str_nat :: "nat \<Rightarrow> string" where
  "str_nat n = (if n < 10 then [''0123456789'' ! n]
                else str_nat (n div 10) @ [''0123456789'' ! (n mod 10)])"

definition str_int :: "int \<Rightarrow> string" where
  "str_int i = (if i < 0 then ''-'' @ str_nat (nat (- i)) else str_nat (nat i))"

text \<open>An \<^verbatim>\<open>Optional[str]\<close> inside an f-string: \<^verbatim>\<open>None\<close> is rendered as the word None.\<close>

definition str_opt :: "string option \<Rightarrow> string" where
  "str_opt e = (case e of None \<Rightarrow> ''None'' | Some s \<Rightarrow> s)"

section \<open>The normalizer\<close>

definition CSV_HEADERS :: "string list" where
  "CSV_HEADERS = [''Customer Name'', ''Customer Address'']"

text \<open>
  \<^verbatim>\<open>normalize_raw_text\<close>, branch by branch. The function has no statement that can
  raise: \<^verbatim>\<open>lines[0]\<close> is read only behind \<^verbatim>\<open>len(lines) >= 2\<close>.
\<close>

definition normalize_raw_text :: "string \<Rightarrow> string" where
  "normalize_raw_text raw_text0 =
     (let raw_text = str_strip raw_text0 in
      if raw_text = [] then []
      else
        let lines = [str_strip line. line \<leftarrow> str_splitlines raw_text, str_strip line \<noteq> []] in
        if lines = [] then []
        else if list_ex (\<lambda>line. TAB \<in> set line) lines
          then str_join [TAB] [line. line \<leftarrow> lines, line \<noteq> []]
        else if length lines \<ge> 2 \<and> COMMA \<notin> set (lines ! 0)
          then (let name = lines ! 0; address = str_join '' '' (drop 1 lines)
                in name @ [TAB] @ address)
        else
          let stripped_lines = [str_rstrip_chars '','' line. line \<leftarrow> lines]
          in str_join '','' stripped_lines)"

text \<open>The cascade in the words of the specification, to be compared with the code.\<close>

definition trimmed_lines :: "string \<Rightarrow> string list" where
  "trimmed_lines raw = filter (\<lambda>l. l \<noteq> []) (map str_strip (str_splitlines (str_strip raw)))"

definition normalize_cascade :: "string \<Rightarrow> string" where
  "normalize_cascade raw =
     (case trimmed_lines raw of
        [] \<Rightarrow> []
      | first # others \<Rightarrow>
          if list_ex (\<lambda>l. TAB \<in> set l) (first # others) then str_join [TAB] (first # others)
          else if others \<noteq> [] \<and> COMMA \<notin> set first then first @ [TAB] @ str_join '' '' others
          else str_join '','' (map (str_rstrip_chars '','') (first # others)))"

section \<open>Reading the canonical line with the csv module\<close>

text \<open>
  \<^verbatim>\<open>parse_csv_row\<close> hands the canonical line to \<^verbatim>\<open>csv.reader(io.StringIO(text),
  delimiter=...)\<close>. The reader is library code; it is modelled after the state machine of
  CPython's \<^verbatim>\<open>_csv.c\<close> (3.11 and later, where a NUL is an ordinary character) under the
  default dialect: quote character \<^verbatim>\<open>"\<close>, doubled quotes, no escape character, no
  skipping of initial spaces, not strict. The two ways the reader raises \<^verbatim>\<open>csv.Error\<close> are
  values of \<open>csv_error\<close>.
\<close>

datatype parser_state =
  START_RECORD | START_FIELD | IN_FIELD | IN_QUOTED_FIELD | QUOTE_IN_QUOTED_FIELD | EAT_CRNL

datatype csv_error = FieldLimitExceeded | NewlineInUnquotedField

text \<open>\<^verbatim>\<open>csv.field_size_limit()\<close>, which the script never changes.\<close>

definition field_limit :: nat where
  "field_limit = 131072"

text \<open>The text of a \<^verbatim>\<open>csv.Error\<close>, as \<^verbatim>\<open>str(exc)\<close> gives it (the wording of the second
  message has changed between CPython releases; nothing below depends on it).\<close>

definition csv_error_str :: "csv_error \<Rightarrow> string" where
  "csv_error_str e =
     (case e of
        FieldLimitExceeded \<Rightarrow> ''field larger than field limit ('' @ str_nat field_limit @ '')''
      | NewlineInUnquotedField \<Rightarrow>
          ''new-line character seen in unquoted field - do you need to open the file with newline=''
            @ [CHR 0x27, CHR 0x27] @ ''?'')"

record reader =
  state :: parser_state
  row_fields :: "string list"
  cur_field :: string

definition parse_reset :: reader where
  "parse_reset = \<lparr>state = START_RECORD, row_fields = [], cur_field = []\<rparr>"

definition parse_save_field :: "reader \<Rightarrow> reader" where
  "parse_save_field r = r\<lparr>row_fields := row_fields r @ [cur_field r], cur_field := []\<rparr>"

definition parse_add_char :: "reader \<Rightarrow> char \<Rightarrow> csv_error + reader" where
  "parse_add_char r c =
     (if length (cur_field r) \<ge> field_limit then Inl FieldLimitExceeded
      else Inr (r\<lparr>cur_field := cur_field r @ [c]\<rparr>))"

text \<open>The case \<^verbatim>\<open>START_FIELD\<close> of \<^verbatim>\<open>parse_process_char\<close>; \<^verbatim>\<open>START_RECORD\<close> falls
  through to it. The character \<open>None\<close> is the end-of-line marker the reader feeds after
  every line.\<close>

definition start_field :: "char \<Rightarrow> reader \<Rightarrow> char option \<Rightarrow> csv_error + reader" where
  "start_field delimiter r c =
     (case c of
        None \<Rightarrow> Inr ((parse_save_field r)\<lparr>state := START_RECORD\<rparr>)
      | Some ch \<Rightarrow>
          if ch = LF \<or> ch = CR then Inr ((parse_save_field r)\<lparr>state := EAT_CRNL\<rparr>)
          else if ch = QUOTE then Inr (r\<lparr>state := IN_QUOTED_FIELD\<rparr>)
          else if ch = delimiter then Inr (parse_save_field r)
          else (case parse_add_char r ch of
                  Inl e \<Rightarrow> Inl e
                | Inr r' \<Rightarrow> Inr (r'\<lparr>state := IN_FIELD\<rparr>)))"

definition parse_process_char :: "char \<Rightarrow> reader \<Rightarrow> char option \<Rightarrow> csv_error + reader" where
  "parse_process_char delimiter r c =
     (case state r of
        START_RECORD \<Rightarrow>
          (case c of
             None \<Rightarrow> Inr r
           | Some ch \<Rightarrow>
               if ch = LF \<or> ch = CR then Inr (r\<lparr>state := EAT_CRNL\<rparr>)
               else start_field delimiter (r\<lparr>state := START_FIELD\<rparr>) c)
      | START_FIELD \<Rightarrow> start_field delimiter r c
      | IN_FIELD \<Rightarrow>
          (case c of
             None \<Rightarrow> Inr ((parse_save_field r)\<lparr>state := START_RECORD\<rparr>)
           | Some ch \<Rightarrow>
               if ch = LF \<or> ch = CR then Inr ((parse_save_field r)\<lparr>state := EAT_CRNL\<rparr>)
               else if ch = delimiter then Inr ((parse_save_field r)\<lparr>state := START_FIELD\<rparr>)
               else parse_add_char r ch)
      | IN_QUOTED_FIELD \<Rightarrow>
          (case c of
             None \<Rightarrow> Inr r
           | Some ch \<Rightarrow>
               if ch = QUOTE then Inr (r\<lparr>state := QUOTE_IN_QUOTED_FIELD\<rparr>)
               else parse_add_char r ch)
      | QUOTE_IN_QUOTED_FIELD \<Rightarrow>
          (case c of
             None \<Rightarrow> Inr ((parse_save_field r)\<lparr>state := START_RECORD\<rparr>)
           | Some ch \<Rightarrow>
               if ch = QUOTE then
                 (case parse_add_char r ch of
                    Inl e \<Rightarrow> Inl e
                  | Inr r' \<Rightarrow> Inr (r'\<lparr>state := IN_QUOTED_FIELD\<rparr>))
               else if ch = delimiter then Inr ((parse_save_field r)\<lparr>state := START_FIELD\<rparr>)
               else if ch = LF \<or> ch = CR then Inr ((parse_save_field r)\<lparr>state := EAT_CRNL\<rparr>)
               else (case parse_add_char r ch of
                       Inl e \<Rightarrow> Inl e
                     | Inr r' \<Rightarrow> Inr (r'\<lparr>state := IN_FIELD\<rparr>)))
      | EAT_CRNL \<Rightarrow>
          (case c of
             None \<Rightarrow> Inr (r\<lparr>state := START_RECORD\<rparr>)
           | Some ch \<Rightarrow>
               if ch = LF \<or> ch = CR then Inr r else Inl NewlineInUnquotedField))"

fun process_chars :: "char \<Rightarrow> reader \<Rightarrow> string \<Rightarrow> csv_error + reader" where
  "process_chars delimiter r [] = Inr r"
| "process_chars delimiter r (c # cs) =
     (case parse_process_char delimiter r (Some c) of
        Inl e \<Rightarrow> Inl e
      | Inr r' \<Rightarrow> process_chars delimiter r' cs)"

text \<open>One line of input: its characters, then the end-of-line marker.\<close>

definition process_line :: "char \<Rightarrow> reader \<Rightarrow> string \<Rightarrow> csv_error + reader" where
  "process_line delimiter r line =
     (case process_chars delimiter r line of
        Inl e \<Rightarrow> Inl e
      | Inr r' \<Rightarrow> parse_process_char delimiter r' None)"

text \<open>Iterating over \<^verbatim>\<open>io.StringIO(text)\<close>: the lines of the text, each with its closing
  \<^verbatim>\<open>\n\<close>; only \<^verbatim>\<open>\n\<close> ends a line.\<close>

fun readlines_from :: "string \<Rightarrow> string \<Rightarrow> string list" where
  "readlines_from cur [] = (if cur = [] then [] else [cur])"
| "readlines_from cur (c # cs) =
     (if c = LF then (cur @ [c]) # readlines_from [] cs
      else readlines_from (cur @ [c]) cs)"

definition stringio_lines :: "string \<Rightarrow> string list" where
  "stringio_lines s = readlines_from [] s"

text \<open>
  All the records the reader yields. \<^verbatim>\<open>Reader_iternext\<close> resets the parser, then consumes
  lines until the parser is back in \<^verbatim>\<open>START_RECORD\<close>; when the input ends inside a record
  with a pending field (or inside quotes), the field is saved and the record returned.
  The first error ends the iteration, as the raised \<^verbatim>\<open>csv.Error\<close> does.
\<close>

fun read_records :: "char \<Rightarrow> reader \<Rightarrow> string list \<Rightarrow> csv_error + string list list" where
  "read_records delimiter r [] =
     (if cur_field r \<noteq> [] \<or> state r = IN_QUOTED_FIELD
      then Inr [row_fields (parse_save_field r)]
      else Inr [])"
| "read_records delimiter r (line # lines) =
     (case process_line delimiter r line of
        Inl e \<Rightarrow> Inl e
      | Inr r' \<Rightarrow>
          if state r' \<noteq> START_RECORD then read_records delimiter r' lines
          else (case read_records delimiter parse_reset lines of
                  Inl e \<Rightarrow> Inl e
                | Inr records \<Rightarrow> Inr (row_fields r' # records)))"

definition csv_reader :: "char \<Rightarrow> string \<Rightarrow> csv_error + string list list" where
  "csv_reader delimiter text = read_records delimiter parse_reset (stringio_lines text)"

section \<open>The row parser\<close>

text \<open>A Python \<^verbatim>\<open>Dict[str, str]\<close> is an association list in insertion order;
  \<^const>\<open>AList.update\<close> is \<^verbatim>\<open>d[k] = v\<close>.\<close>

type_synonym dict = "(string \<times> string) list"

definition dict_get :: "dict \<Rightarrow> string \<Rightarrow> string \<Rightarrow> string" where
  "dict_get d k dflt = (case map_of d k of None \<Rightarrow> dflt | Some v \<Rightarrow> v)"

text \<open>\<^verbatim>\<open>xs[-n:]\<close> for \<open>n \<ge> 0\<close>.\<close>

definition last_n :: "nat \<Rightarrow> 'a list \<Rightarrow> 'a list" where
  "last_n n xs = (if n = 0 then xs else drop (length xs - n) xs)"

text \<open>The candidate-selection loop of \<^verbatim>\<open>parse_csv_row\<close>; the first argument is the
  variable \<^verbatim>\<open>candidate\<close>.\<close>

fun select_candidate :: "string list option \<Rightarrow> string list list \<Rightarrow> string list option" where
  "select_candidate candidate [] = candidate"
| "select_candidate candidate (row # rows) =
     (let normalized = map str_strip row in
      if normalized = [] then select_candidate candidate rows
      else
        let lowered = map str_lower normalized in
        if lowered = map str_lower CSV_HEADERS then select_candidate candidate rows
        else if length normalized \<ge> length CSV_HEADERS
          then select_candidate (Some (last_n (length CSV_HEADERS) normalized)) rows
        else select_candidate candidate rows)"

text \<open>The loop that fills \<^verbatim>\<open>result\<close>; \<^verbatim>\<open>candidate[idx]\<close> is in range because the length
  check precedes it.\<close>

definition build_result :: "string list \<Rightarrow> dict" where
  "build_result candidate =
     fold (\<lambda>(idx, header) result. AList.update header (str_strip (candidate ! idx)) result)
       (enumerate 0 CSV_HEADERS) []"

definition parse_csv_row :: "string \<Rightarrow> dict option \<times> string option" where
  "parse_csv_row raw_text =
     (let normalized_text = normalize_raw_text raw_text in
      if normalized_text = [] then (None, Some ''empty response'')
      else
        let delimiter = (if TAB \<in> set normalized_text then TAB else COMMA) in
        case csv_reader delimiter normalized_text of
          Inl exc \<Rightarrow> (None, Some (''parse error: '' @ csv_error_str exc))
        | Inr records \<Rightarrow>
            let rows = filter (\<lambda>row. row \<noteq> []) records in
            if rows = [] then (None, Some ''no data rows'')
            else
              (case select_candidate None rows of
                 None \<Rightarrow> (None, Some ''no row with expected column count'')
               | Some candidate \<Rightarrow>
                   if length candidate \<noteq> length CSV_HEADERS
                   then (None, Some (''expected '' @ str_nat (length CSV_HEADERS)
                                      @ '' columns, got '' @ str_nat (length candidate)))
                   else (Some (build_result candidate), None)))"

section \<open>The row validator\<close>

fun validate_headers :: "string list \<Rightarrow> dict \<Rightarrow> string option" where
  "validate_headers [] row = None"
| "validate_headers (header # headers) row =
     (let value = str_strip (dict_get row header []) in
      if value \<noteq> [] \<and> str_startswith (str_lower value) (str_lower header)
      then Some (header @ '' still contains placeholder text'')
      else validate_headers headers row)"

definition validate_csv_row :: "dict \<Rightarrow> string option" where
  "validate_csv_row row = validate_headers CSV_HEADERS row"

section \<open>The retry loop\<close>

text \<open>
  \<^verbatim>\<open>model.query(image, prompt)\<close> is an external call. It is modelled as a function of a
  hidden state: it returns either the exception it raised or the result dictionary, and
  the next state. The image is opaque. Console output is left out.
\<close>

type_synonym ('s, 'i, 'e) model = "'s \<Rightarrow> 'i \<Rightarrow> string \<Rightarrow> ('e + dict) \<times> 's"

datatype 'e failure = ValueError string | QueryRaised 'e

definition CSV_PROMPT :: string where
  "CSV_PROMPT = ''Output one tab-separated row with these columns: ''
                  @ str_join '', '' CSV_HEADERS @ ''.''"

text \<open>\<^verbatim>\<open>x or default\<close> on an \<^verbatim>\<open>Optional[str]\<close>.\<close>

definition or_else :: "string option \<Rightarrow> string \<Rightarrow> string" where
  "or_else x dflt = (case x of None \<Rightarrow> dflt | Some s \<Rightarrow> if s = [] then dflt else s)"

definition retry_prompt :: "string option \<Rightarrow> string" where
  "retry_prompt last_error =
     CSV_PROMPT @ [LF, LF]
       @ ''The previous response was invalid because ''
       @ or_else last_error ''it could not be parsed'' @ ''. ''
       @ ''Respond again with only one line containing exactly ''
       @ str_nat (length CSV_HEADERS) @ '' tab-separated fields in the specified order.''"

definition exhausted_message :: "int \<Rightarrow> string option \<Rightarrow> string" where
  "exhausted_message max_attempts last_error =
     ''Failed to obtain valid CSV row after '' @ str_int max_attempts
       @ '' attempts: '' @ str_opt last_error"

text \<open>The body of the loop after the query has returned: \<open>Inr\<close> is the \<^verbatim>\<open>return\<close>,
  \<open>Inl\<close> the new value of \<^verbatim>\<open>last_error\<close>.\<close>

definition evaluate_answer :: "dict \<Rightarrow> string + (dict \<times> string)" where
  "evaluate_answer csv_query_result =
     (let raw_csv = str_strip (dict_get csv_query_result ''answer'' []) in
      case parse_csv_row raw_csv of
        (parsed_row, parse_error) \<Rightarrow>
          (case parsed_row of
             None \<Rightarrow> Inl (or_else parse_error ''unknown parsing error'')
           | Some r \<Rightarrow>
               if r = [] then Inl (or_else parse_error ''unknown parsing error'')
               else (case validate_csv_row r of
                       None \<Rightarrow> Inr (r, raw_csv)
                     | Some validation_error \<Rightarrow>
                         if validation_error = [] then Inr (r, raw_csv)
                         else Inl validation_error)))"

text \<open>
  The \<^verbatim>\<open>for attempt in range(max_attempts)\<close> loop over the attempt numbers still to run.
  The result is the outcome (a raised failure or the returned pair), the log of the
  calls made to \<^verbatim>\<open>model.query\<close> (prompt and what came back) and the final state of the
  model.
\<close>

type_synonym ('s, 'e) run =
  "('e failure + (dict \<times> string)) \<times> (string \<times> ('e + dict)) list \<times> 's"

fun request_loop ::
  "('s, 'i, 'e) model \<Rightarrow> 'i \<Rightarrow> int \<Rightarrow> nat list \<Rightarrow> string option \<Rightarrow> string
     \<Rightarrow> (string \<times> ('e + dict)) list \<Rightarrow> 's \<Rightarrow> ('s, 'e) run" where
  "request_loop query img max_attempts [] last_error current_prompt calls s =
     (Inl (ValueError (exhausted_message max_attempts last_error)), calls, s)"
| "request_loop query img max_attempts (attempt # rest) last_error current_prompt calls s =
     (let current_prompt = (if attempt > 0 then retry_prompt last_error else current_prompt) in
      case query s img current_prompt of
        (Inl exc, s') \<Rightarrow>
          (Inl (QueryRaised exc), calls @ [(current_prompt, Inl exc)], s')
      | (Inr csv_query_result, s') \<Rightarrow>
          (case evaluate_answer csv_query_result of
             Inr ok \<Rightarrow> (Inr ok, calls @ [(current_prompt, Inr csv_query_result)], s')
           | Inl err \<Rightarrow>
               request_loop query img max_attempts rest (Some err) current_prompt
                 (calls @ [(current_prompt, Inr csv_query_result)]) s'))"

text \<open>\<^verbatim>\<open>range(max_attempts)\<close> is empty for a non-positive argument.\<close>

definition request_csv_row :: "'i \<Rightarrow> ('s, 'i, 'e) model \<Rightarrow> 's \<Rightarrow> int \<Rightarrow> ('s, 'e) run" where
  "request_csv_row img query s max_attempts =
     request_loop query img max_attempts [0..<nat max_attempts] None CSV_PROMPT [] s"

section \<open>Notions used in the statements\<close>

text \<open>A string that \<^verbatim>\<open>strip()\<close> leaves alone and that is not empty.\<close>

definition trimmed :: "string \<Rightarrow> bool" where
  "trimmed s = (s \<noteq> [] \<and> \<not> isspace (hd s) \<and> \<not> isspace (last s))"

definition no_breaks :: "string \<Rightarrow> bool" where
  "no_breaks s = (\<not> list_ex is_linebreak s)"

text \<open>The test the validator makes on one field, in the words of the specification: the
  value, trimmed, is not empty and its lowercase form starts with the lowercase field
  name.\<close>

definition placeholder_echo :: "dict \<Rightarrow> string \<Rightarrow> bool" where
  "placeholder_echo row header =
     (str_strip (dict_get row header []) \<noteq> []
      \<and> str_startswith (str_lower (str_strip (dict_get row header []))) (str_lower header))"

text \<open>An inference stub that never raises and always answers with the empty text.\<close>

definition blank_model :: "(unit, unit, unit) model" where
  "blank_model s img prompt = (Inr [(''answer'', [])], s)"

text \<open>An inference stub whose state counts the calls made so far: the first call answers
  with the empty text, the second raises (a timeout, say), and any later call would
  answer with the empty text again.\<close>

definition failing_model :: "(nat, unit, string) model" where
  "failing_model s img prompt =
     (if s = 1 then Inl ''timeout'' else Inr [(''answer'', [])], Suc s)"

text \<open>A field that the csv reader takes over unchanged under the delimiter \<open>d\<close>: it holds
  no delimiter and no \<^verbatim>\<open>\r\<close> or \<^verbatim>\<open>\n\<close>, does not open with the quote character, and fits the
  field size limit.\<close>

definition plain_field :: "char \<Rightarrow> string \<Rightarrow> bool" where
  "plain_field d f =
     (d \<notin> set f \<and> CR \<notin> set f \<and> LF \<notin> set f \<and> (f = [] \<or> hd f \<noteq> QUOTE)
      \<and> length f \<le> field_limit)"

text \<open>The serialization of the round-trip property: the values of the row, in schema
  order, joined with tabs.\<close>

definition serialize_row :: "dict \<Rightarrow> string" where
  "serialize_row row = str_join [TAB] (map (\<lambda>header. dict_get row header []) CSV_HEADERS)"

text \<open>A value that survives the round trip: trimmed and not empty, on one line, without
  a tab, not opening with a double quote, within the field size limit.\<close>

definition roundtrip_value :: "string \<Rightarrow> bool" where
  "roundtrip_value v =
     (trimmed v \<and> no_breaks v \<and> TAB \<notin> set v \<and> hd v \<noteq> QUOTE \<and> length v \<le> field_limit)"

text \<open>A token of a two-line answer (a header name or a value, possibly padded with blanks):
  it holds no tab, comma, double quote or line-break character, is not blank, and fits the
  field size limit of the csv module.\<close>

definition proper_token :: "string \<Rightarrow> bool" where
  "proper_token t =
     (\<not> list_ex (\<lambda>c. c = TAB \<or> c = COMMA \<or> c = QUOTE \<or> is_linebreak c) t
      \<and> str_strip t \<noteq> [] \<and> length t \<le> field_limit)"

section \<open>Facts about the string methods\<close>

lemma comp_filter_map:
  "[str_strip line. line \<leftarrow> xs, str_strip line \<noteq> []] = filter (\<lambda>l. l \<noteq> []) (map str_strip xs)"
  by (induction xs) auto

lemma comp_filter_id: "[line. line \<leftarrow> xs, line \<noteq> []] = filter (\<lambda>l. l \<noteq> []) xs"
  by (induction xs) auto

lemma splitlines_Nil: "str_splitlines [] = []"
  by (simp add: str_splitlines_def)

lemma trimmed_lines_blank: "str_strip raw = [] \<Longrightarrow> trimmed_lines raw = []"
  by (simp add: trimmed_lines_def splitlines_Nil)

lemma trimmed_lines_filter: "filter (\<lambda>l. l \<noteq> []) (trimmed_lines raw) = trimmed_lines raw"
  by (simp add: trimmed_lines_def)

lemma normalize_raw_text_lines:
  "normalize_raw_text raw =
     (if str_strip raw = [] then []
      else if trimmed_lines raw = [] then []
      else if list_ex (\<lambda>line. TAB \<in> set line) (trimmed_lines raw)
        then str_join [TAB] (trimmed_lines raw)
      else if length (trimmed_lines raw) \<ge> 2 \<and> COMMA \<notin> set (trimmed_lines raw ! 0)
        then trimmed_lines raw ! 0 @ [TAB] @ str_join '' '' (drop 1 (trimmed_lines raw))
      else str_join '','' (map (str_rstrip_chars '','') (trimmed_lines raw)))"
  unfolding normalize_raw_text_def Let_def comp_filter_map comp_filter_id
    trimmed_lines_def[symmetric] trimmed_lines_filter
  by (rule refl)


lemma linebreak_isspace: "is_linebreak c \<Longrightarrow> isspace c"
  by (auto simp add: is_linebreak_def isspace_def)

lemma rstrip_trimmed: "s \<noteq> [] \<Longrightarrow> \<not> isspace (last s) \<Longrightarrow> str_rstrip s = s"
  by (cases s rule: rev_cases) (simp_all add: str_rstrip_def)

lemma lstrip_trimmed: "s \<noteq> [] \<Longrightarrow> \<not> isspace (hd s) \<Longrightarrow> str_lstrip s = s"
  by (cases s) (simp_all add: str_lstrip_def)

lemma strip_trimmed: "trimmed s \<Longrightarrow> str_strip s = s"
  by (simp add: trimmed_def str_strip_def lstrip_trimmed rstrip_trimmed)

lemma rstrip_last: "str_rstrip s \<noteq> [] \<Longrightarrow> \<not> isspace (last (str_rstrip s))"
  unfolding str_rstrip_def
  by (metis hd_dropWhile last_rev rev_is_Nil_conv)

lemma rstrip_hd: "str_rstrip s \<noteq> [] \<Longrightarrow> hd (str_rstrip s) = hd s"
proof (induction s rule: rev_induct)
  case Nil
  then show ?case by (simp add: str_rstrip_def)
next
  case (snoc x xs)
  show ?case
  proof (cases "isspace x")
    case True
    then have eq: "str_rstrip (xs @ [x]) = str_rstrip xs"
      by (simp add: str_rstrip_def)
    with snoc have "hd (str_rstrip xs) = hd xs" "xs \<noteq> []"
      by (auto simp add: str_rstrip_def)
    with eq show ?thesis by simp
  next
    case False
    then show ?thesis by (simp add: str_rstrip_def)
  qed
qed

lemma lstrip_hd: "str_lstrip s \<noteq> [] \<Longrightarrow> \<not> isspace (hd (str_lstrip s))"
  unfolding str_lstrip_def by (rule hd_dropWhile)

lemma strip_is_trimmed: "str_strip s \<noteq> [] \<Longrightarrow> trimmed (str_strip s)"
  unfolding trimmed_def str_strip_def
  by (metis lstrip_hd rstrip_hd rstrip_last rev.simps(1) dropWhile.simps(1) str_rstrip_def)

lemma set_rstrip: "set (str_rstrip s) \<subseteq> set s"
  unfolding str_rstrip_def by (metis set_dropWhileD set_rev subsetI)

lemma set_strip: "set (str_strip s) \<subseteq> set s"
  unfolding str_strip_def str_lstrip_def
  using set_rstrip set_dropWhileD by fastforce

lemma strip_idem: "str_strip (str_strip s) = str_strip s"
proof (cases "str_strip s = []")
  case True
  have "str_strip [] = []"
    by (simp add: str_strip_def str_lstrip_def str_rstrip_def)
  with True show ?thesis by simp
next
  case False
  then show ?thesis by (simp add: strip_is_trimmed strip_trimmed)
qed

lemma splitlines_from_no_breaks:
  "no_breaks s \<Longrightarrow> splitlines_from cur (s @ rest) = splitlines_from (cur @ s) rest"
proof (induction s arbitrary: cur)
  case Nil
  then show ?case by simp
next
  case (Cons c s)
  then have "\<not> is_linebreak c" "c \<noteq> CR" "no_breaks s"
    by (auto simp add: no_breaks_def is_linebreak_def)
  with Cons.IH[of "cur @ [c]"] show ?case by simp
qed

lemma splitlines_single: "s \<noteq> [] \<Longrightarrow> no_breaks s \<Longrightarrow> str_splitlines s = [s]"
  using splitlines_from_no_breaks[of s "[]" "[]"] by (simp add: str_splitlines_def)

lemma splitlines_from_lines:
  "no_breaks cur \<Longrightarrow> l \<in> set (splitlines_from cur s) \<Longrightarrow> no_breaks l"
proof (induction cur s rule: splitlines_from.induct)
  case (1 cur)
  then show ?case by (simp split: if_splits)
next
  case (2 cur c cs)
  have nb: "no_breaks []" by (simp add: no_breaks_def)
  show ?case
  proof (cases "c = CR")
    case True
    with 2 nb show ?thesis
      by (cases cs) (auto split: if_splits)
  next
    case False
    show ?thesis
    proof (cases "is_linebreak c")
      case True
      with False 2 nb show ?thesis by auto
    next
      case nl: False
      then have "no_breaks (cur @ [c])"
        using 2(5) by (simp add: no_breaks_def)
      with False nl 2 show ?thesis by auto
    qed
  qed
qed

lemma splitlines_lines: "l \<in> set (str_splitlines s) \<Longrightarrow> no_breaks l"
  unfolding str_splitlines_def
  by (rule splitlines_from_lines[of "[]"]) (simp_all add: no_breaks_def)

lemma no_breaks_subset: "set t \<subseteq> set s \<Longrightarrow> no_breaks s \<Longrightarrow> no_breaks t"
  by (auto simp add: no_breaks_def list_ex_iff)

lemma trimmed_lines_member:
  "l \<in> set (trimmed_lines raw) \<Longrightarrow> trimmed l \<and> no_breaks l"
  unfolding trimmed_lines_def
  using strip_is_trimmed splitlines_lines no_breaks_subset[OF set_strip] by auto

lemma join_nonempty_hd_last:
  "lines \<noteq> [] \<Longrightarrow> \<forall>l \<in> set lines. l \<noteq> [] \<Longrightarrow>
   str_join sep lines \<noteq> [] \<and> hd (str_join sep lines) = hd (hd lines)
     \<and> last (str_join sep lines) = last (last lines)"
  by (induction sep lines rule: str_join.induct) auto

lemma set_join: "set (str_join sep lines) \<subseteq> set sep \<union> \<Union> (set ` set lines)"
  by (induction sep lines rule: str_join.induct) auto

lemma set_join_lines: "l \<in> set lines \<Longrightarrow> set l \<subseteq> set (str_join sep lines)"
  by (induction sep lines rule: str_join.induct) auto

lemma join_trimmed:
  assumes "lines \<noteq> []" "\<forall>l \<in> set lines. trimmed l"
  shows "trimmed (str_join sep lines)"
proof -
  from assms have ne: "\<forall>l \<in> set lines. l \<noteq> []"
    by (simp add: trimmed_def)
  from assms have "trimmed (hd lines)" "trimmed (last lines)"
    by simp_all
  with join_nonempty_hd_last[OF assms(1) ne, of sep] show ?thesis
    by (simp add: trimmed_def)
qed

lemma join_no_breaks:
  assumes "\<forall>l \<in> set lines. no_breaks l" "no_breaks sep"
  shows "no_breaks (str_join sep lines)"
  using assms set_join[of sep lines]
  by (fastforce simp add: no_breaks_def list_ex_iff)

lemma normalize_fixpoint:
  assumes "trimmed r" "no_breaks r" "TAB \<in> set r"
  shows "normalize_raw_text r = r"
proof -
  from assms(1) have s: "str_strip r = r" and ne: "r \<noteq> []"
    by (simp_all add: strip_trimmed trimmed_def)
  then have "trimmed_lines r = [r]"
    using assms(2) by (simp add: trimmed_lines_def splitlines_single)
  with s ne assms(3) show ?thesis
    by (simp add: normalize_raw_text_lines)
qed

lemma set_rstrip_chars: "set (str_rstrip_chars cs s) \<subseteq> set s"
  unfolding str_rstrip_chars_def by (metis set_dropWhileD set_rev subsetI)


lemma tab_line_normalize:
  assumes "list_ex (\<lambda>line. TAB \<in> set line) (trimmed_lines x)"
  shows "TAB \<in> set (normalize_raw_text x)"
proof -
  from assms have ne: "trimmed_lines x \<noteq> []" by auto
  then have "str_strip x \<noteq> []" using trimmed_lines_blank by blast
  with ne assms have "normalize_raw_text x = str_join [TAB] (trimmed_lines x)"
    by (simp add: normalize_raw_text_lines)
  with assms set_join_lines show ?thesis
    by (fastforce simp add: list_ex_iff)
qed

section \<open>Facts about the validator, the parser and the retry loop\<close>

lemma validate_headers_find:
  "validate_headers hs row =
     (case find (placeholder_echo row) hs of
        None \<Rightarrow> None
      | Some h \<Rightarrow> Some (h @ '' still contains placeholder text''))"
  by (induction hs) (simp_all add: placeholder_echo_def Let_def)

lemmas lower_simps = str_lower_def lower_char_def upper_chars_def lower_chars_def

lemma lower_customer_name: "str_lower ''Customer Name'' = ''customer name''"
  by (simp add: lower_simps)

lemma lower_customer_address: "str_lower ''Customer Address'' = ''customer address''"
  by (simp add: lower_simps)

lemma strip_Nil: "str_strip [] = []"
  by (simp add: str_strip_def str_lstrip_def str_rstrip_def)

lemma validate_echo_example:
  "validate_csv_row [(''Customer Name'', ''Customer Name: Jane Doe''), (''Customer Address'', a)]
     = Some ''Customer Name still contains placeholder text''"
proof -
  have "trimmed ''Customer Name: Jane Doe''"
    by (simp add: trimmed_def isspace_def)
  then have s: "str_strip ''Customer Name: Jane Doe'' = ''Customer Name: Jane Doe''"
    by (rule strip_trimmed)
  have l: "str_lower ''Customer Name: Jane Doe'' = ''customer name: jane doe''"
    by (simp add: lower_simps)
  show ?thesis
    by (simp add: validate_csv_row_def CSV_HEADERS_def dict_get_def s l str_startswith_def
        lower_customer_name)
qed

lemma validate_plain_example:
  "validate_csv_row [(''Customer Name'', ''Jane Doe''), (''Customer Address'', ''5 Oak Ave'')] = None"
proof -
  have t: "trimmed ''Jane Doe''" "trimmed ''5 Oak Ave''"
    by (simp_all add: trimmed_def isspace_def)
  have s: "str_strip ''Jane Doe'' = ''Jane Doe''" "str_strip ''5 Oak Ave'' = ''5 Oak Ave''"
    using t by (simp_all add: strip_trimmed)
  have l: "str_lower ''Jane Doe'' = ''jane doe''" "str_lower ''5 Oak Ave'' = ''5 oak ave''"
    by (simp_all add: lower_simps)
  show ?thesis
    by (simp add: validate_csv_row_def CSV_HEADERS_def dict_get_def s l str_startswith_def
        lower_customer_name lower_customer_address)
qed


lemma build_result_two:
  "build_result [a, b] = [(''Customer Name'', str_strip a), (''Customer Address'', str_strip b)]"
  by (simp add: build_result_def CSV_HEADERS_def)

lemma length_headers: "length CSV_HEADERS = 2"
  by (simp add: CSV_HEADERS_def)

lemma last_n_length: "0 < n \<Longrightarrow> n \<le> length xs \<Longrightarrow> length (last_n n xs) = n"
  by (simp add: last_n_def)

lemma select_candidate_length:
  "select_candidate candidate rows = Some c \<Longrightarrow>
   (\<forall>c0. candidate = Some c0 \<longrightarrow> length c0 = length CSV_HEADERS) \<Longrightarrow>
   length c = length CSV_HEADERS"
proof (induction rows arbitrary: candidate)
  case Nil
  then show ?case by simp
next
  case (Cons row rows)
  show ?case
  proof (cases "map str_strip row \<noteq> [] \<and> map str_lower (map str_strip row) \<noteq> map str_lower CSV_HEADERS
                \<and> length (map str_strip row) \<ge> length CSV_HEADERS")
    case True
    then have "select_candidate (Some (last_n (length CSV_HEADERS) (map str_strip row))) rows = Some c"
      using Cons.prems(1) by (simp add: Let_def)
    moreover have "length (last_n (length CSV_HEADERS) (map str_strip row)) = length CSV_HEADERS"
      using True by (intro last_n_length) (simp_all add: length_headers)
    ultimately show ?thesis
      using Cons.IH[of "Some (last_n (length CSV_HEADERS) (map str_strip row))"] by auto
  next
    case False
    then have "select_candidate candidate rows = Some c"
      using Cons.prems(1) by (auto simp add: Let_def split: if_splits)
    then show ?thesis
      using Cons.prems(2) by (rule Cons.IH)
  qed
qed

lemma parse_csv_row_cases:
  "parse_csv_row raw = (None, Some ''empty response'')
   \<or> (\<exists>exc. parse_csv_row raw = (None, Some (''parse error: '' @ csv_error_str exc)))
   \<or> parse_csv_row raw = (None, Some ''no data rows'')
   \<or> parse_csv_row raw = (None, Some ''no row with expected column count'')
   \<or> (\<exists>c. length c = length CSV_HEADERS \<and> parse_csv_row raw = (Some (build_result c), None))"
proof -
  have sel: "\<And>rows c. select_candidate None rows = Some c \<Longrightarrow> length c = length CSV_HEADERS"
    using select_candidate_length[of None] by auto
  show ?thesis
    unfolding parse_csv_row_def Let_def
    by (auto split: sum.splits option.splits dest: sel)
qed

lemma select_example:
  "select_candidate None [[''x'', ''Jane Doe'', ''5 Oak Ave'']] = Some [''Jane Doe'', ''5 Oak Ave'']"
proof -
  have t: "trimmed ''Jane Doe''" "trimmed ''5 Oak Ave''" "trimmed ''x''"
    by (simp_all add: trimmed_def isspace_def)
  have s: "str_strip ''Jane Doe'' = ''Jane Doe''" "str_strip ''5 Oak Ave'' = ''5 Oak Ave''"
     "str_strip ''x'' = ''x''"
    using t by (simp_all add: strip_trimmed)
  show ?thesis
    by (simp add: s CSV_HEADERS_def last_n_def)
qed


lemma request_zero:
  "max_attempts \<le> 0 \<Longrightarrow>
   request_csv_row img query s max_attempts
     = (Inl (ValueError (''Failed to obtain valid CSV row after '' @ str_int max_attempts
                          @ '' attempts: None'')), [], s)"
  by (simp add: request_csv_row_def exhausted_message_def str_opt_def)

lemma str_int_examples: "str_int 0 = ''0''" "str_int (-1) = ''-1''" "str_int 3 = ''3''"
  by (simp_all add: str_int_def)

section \<open>Facts about the csv reader and about parsing plain rows\<close>

lemma process_chars_append:
  "process_chars d r (a @ b) =
     (case process_chars d r a of Inl e \<Rightarrow> Inl e | Inr r' \<Rightarrow> process_chars d r' b)"
  by (induction a arbitrary: r) (simp_all split: sum.splits)

lemma in_field_char:
  assumes "state r = IN_FIELD" "c \<noteq> d" "c \<noteq> CR" "c \<noteq> LF" "length (cur_field r) < field_limit"
  shows "parse_process_char d r (Some c) = Inr (r\<lparr>cur_field := cur_field r @ [c]\<rparr>)"
  using assms by (simp add: parse_process_char_def parse_add_char_def)

lemma in_field_run:
  assumes "state r = IN_FIELD" "d \<notin> set f" "CR \<notin> set f" "LF \<notin> set f"
    "length (cur_field r) + length f \<le> field_limit"
  shows "process_chars d r f = Inr (r\<lparr>cur_field := cur_field r @ f\<rparr>)"
  using assms
proof (induction f arbitrary: r)
  case Nil
  then show ?case by simp
next
  case (Cons c f)
  have step: "parse_process_char d r (Some c) = Inr (r\<lparr>cur_field := cur_field r @ [c]\<rparr>)"
    using Cons.prems by (intro in_field_char) auto
  have "process_chars d (r\<lparr>cur_field := cur_field r @ [c]\<rparr>) f
          = Inr (r\<lparr>cur_field := cur_field r @ [c]\<rparr>\<lparr>cur_field := cur_field (r\<lparr>cur_field := cur_field r @ [c]\<rparr>) @ f\<rparr>)"
    using Cons.prems by (intro Cons.IH) auto
  with step show ?case by simp
qed

lemma start_field_char:
  assumes "state r = START_FIELD \<or> state r = START_RECORD" "cur_field r = []"
    "c \<noteq> d" "c \<noteq> CR" "c \<noteq> LF" "c \<noteq> QUOTE"
  shows "parse_process_char d r (Some c) = Inr (r\<lparr>state := IN_FIELD, cur_field := [c]\<rparr>)"
  using assms
  by (auto simp add: parse_process_char_def start_field_def parse_add_char_def field_limit_def)

lemma start_field_delimiter:
  assumes "state r = START_FIELD \<or> state r = START_RECORD" "cur_field r = []"
    "d \<noteq> CR" "d \<noteq> LF" "d \<noteq> QUOTE"
  shows "parse_process_char d r (Some d)
           = Inr (r\<lparr>state := START_FIELD, row_fields := row_fields r @ [[]]\<rparr>)"
  using assms
  by (auto simp add: parse_process_char_def start_field_def parse_save_field_def)

lemma in_field_delimiter:
  assumes "state r = IN_FIELD" "d \<noteq> CR" "d \<noteq> LF"
  shows "parse_process_char d r (Some d)
           = Inr (r\<lparr>state := START_FIELD, row_fields := row_fields r @ [cur_field r], cur_field := []\<rparr>)"
  using assms
  by (auto simp add: parse_process_char_def parse_save_field_def)

lemma field_run:
  assumes "state r = START_FIELD \<or> state r = START_RECORD" "cur_field r = []"
    "plain_field d f" "f \<noteq> []"
  shows "process_chars d r f = Inr (r\<lparr>state := IN_FIELD, cur_field := f\<rparr>)"
proof -
  from assms(4) obtain c cs where f: "f = c # cs" by (cases f) auto
  with assms(3) have c: "c \<noteq> d" "c \<noteq> CR" "c \<noteq> LF" "c \<noteq> QUOTE"
    and cs: "d \<notin> set cs" "CR \<notin> set cs" "LF \<notin> set cs" "Suc (length cs) \<le> field_limit"
    by (auto simp add: plain_field_def)
  have "process_chars d (r\<lparr>state := IN_FIELD, cur_field := [c]\<rparr>) cs
          = Inr (r\<lparr>state := IN_FIELD, cur_field := [c]\<rparr>\<lparr>cur_field := cur_field (r\<lparr>state := IN_FIELD, cur_field := [c]\<rparr>) @ cs\<rparr>)"
    using cs by (intro in_field_run) auto
  with start_field_char[OF assms(1,2) c] show ?thesis
    by (simp add: f)
qed

text \<open>A field and the delimiter after it.\<close>

lemma field_then_delimiter:
  assumes "state r = START_FIELD \<or> state r = START_RECORD" "cur_field r = []"
    "plain_field d f" "d \<noteq> CR" "d \<noteq> LF" "d \<noteq> QUOTE"
  shows "process_chars d r (f @ [d])
           = Inr (r\<lparr>state := START_FIELD, row_fields := row_fields r @ [f], cur_field := []\<rparr>)"
proof (cases "f = []")
  case True
  with start_field_delimiter[OF assms(1,2,4,5,6)] assms(2) show ?thesis
    by simp
next
  case False
  from field_run[OF assms(1,2,3) False] show ?thesis
    by (simp add: process_chars_append in_field_delimiter assms)
qed

lemma field_then_eol:
  assumes "state r = START_FIELD" "cur_field r = []" "plain_field d f"
  shows "process_line d r f
           = Inr (r\<lparr>state := START_RECORD, row_fields := row_fields r @ [f], cur_field := []\<rparr>)"
proof (cases "f = []")
  case True
  with assms show ?thesis
    by (simp add: process_line_def parse_process_char_def start_field_def parse_save_field_def)
next
  case False
  from assms(1) have "state r = START_FIELD \<or> state r = START_RECORD" by simp
  from field_run[OF this assms(2,3) False] show ?thesis
    by (simp add: process_line_def parse_process_char_def parse_save_field_def)
qed

lemma process_line_append:
  "process_line d r (a @ b) =
     (case process_chars d r a of Inl e \<Rightarrow> Inl e | Inr r' \<Rightarrow> process_line d r' b)"
  by (simp add: process_line_def process_chars_append split: sum.splits)

lemma fields_line:
  assumes "state r = START_FIELD" "cur_field r = []" "\<forall>f \<in> set (f0 # fs). plain_field d f"
    "d \<noteq> CR" "d \<noteq> LF" "d \<noteq> QUOTE"
  shows "process_line d r (str_join [d] (f0 # fs))
           = Inr (r\<lparr>state := START_RECORD, row_fields := row_fields r @ f0 # fs, cur_field := []\<rparr>)"
  using assms(1,2,3)
proof (induction fs arbitrary: r f0)
  case Nil
  then show ?case
    using field_then_eol[of r d f0] by simp
next
  case (Cons f1 fs)
  let ?r = "r\<lparr>state := START_FIELD, row_fields := row_fields r @ [f0], cur_field := []\<rparr>"
  have a: "process_chars d r (f0 @ [d]) = Inr ?r"
    using Cons.prems assms(4,5,6) by (intro field_then_delimiter) auto
  have b: "process_line d ?r (str_join [d] (f1 # fs))
             = Inr (?r\<lparr>state := START_RECORD, row_fields := row_fields ?r @ f1 # fs, cur_field := []\<rparr>)"
    using Cons.prems by (intro Cons.IH) auto
  have "str_join [d] (f0 # f1 # fs) = (f0 @ [d]) @ str_join [d] (f1 # fs)"
    by simp
  then show ?case
    using a b by (simp only: process_line_append) simp
qed

lemma start_record_line:
  assumes "state r = START_RECORD" "line \<noteq> []" "hd line \<noteq> CR" "hd line \<noteq> LF"
  shows "process_line d r line = process_line d (r\<lparr>state := START_FIELD\<rparr>) line"
proof -
  from assms(2) obtain c cs where l: "line = c # cs" by (cases line) auto
  with assms have "parse_process_char d r (Some c)
                     = parse_process_char d (r\<lparr>state := START_FIELD\<rparr>) (Some c)"
    by (simp add: parse_process_char_def)
  then show ?thesis
    by (simp add: l process_line_def)
qed

lemma readlines_no_LF:
  "LF \<notin> set s \<Longrightarrow> readlines_from cur s = (if cur @ s = [] then [] else [cur @ s])"
  by (induction s arbitrary: cur) auto

lemma stringio_single: "s \<noteq> [] \<Longrightarrow> LF \<notin> set s \<Longrightarrow> stringio_lines s = [s]"
  by (simp add: stringio_lines_def readlines_no_LF)

lemma csv_reader_plain:
  assumes "fs \<noteq> []" "\<forall>f \<in> set fs. plain_field d f" "str_join [d] fs \<noteq> []"
    "d \<noteq> CR" "d \<noteq> LF" "d \<noteq> QUOTE"
  shows "csv_reader d (str_join [d] fs) = Inr [fs]"
proof -
  let ?line = "str_join [d] fs"
  from assms(1) obtain f0 fs' where fs: "fs = f0 # fs'" by (cases fs) auto
  have nl: "LF \<notin> set ?line" "CR \<notin> set ?line"
    using set_join[of "[d]" fs] assms(2,4,5) by (auto simp add: plain_field_def)
  then have hd: "hd ?line \<noteq> CR" "hd ?line \<noteq> LF"
    using assms(3) by (metis hd_in_set)+
  have lines: "stringio_lines ?line = [?line]"
    using assms(3) nl by (simp add: stringio_single)
  have "process_line d parse_reset ?line = process_line d (parse_reset\<lparr>state := START_FIELD\<rparr>) ?line"
    using assms(3) hd by (intro start_record_line) (simp_all add: parse_reset_def)
  also have "\<dots> = Inr (parse_reset\<lparr>state := START_FIELD\<rparr>\<lparr>state := START_RECORD,
       row_fields := row_fields (parse_reset\<lparr>state := START_FIELD\<rparr>) @ f0 # fs', cur_field := []\<rparr>)"
    unfolding fs using assms(2,4,5,6) fs
    by (intro fields_line) (simp_all add: parse_reset_def)
  finally have "process_line d parse_reset ?line
      = Inr \<lparr>state = START_RECORD, row_fields = fs, cur_field = []\<rparr>"
    by (simp add: parse_reset_def fs)
  then show ?thesis
    by (simp add: csv_reader_def lines parse_reset_def)
qed

lemma parse_plain_row:
  assumes norm: "normalize_raw_text raw = str_join [d] fs"
    and fs: "fs \<noteq> []" "\<forall>f \<in> set fs. plain_field d f" "str_join [d] fs \<noteq> []"
    and d: "d = TAB \<or> d = COMMA" "(TAB \<in> set (str_join [d] fs)) = (d = TAB)"
  shows "parse_csv_row raw =
           (case select_candidate None [fs] of
              None \<Rightarrow> (None, Some ''no row with expected column count'')
            | Some c \<Rightarrow> (Some (build_result c), None))"
proof -
  from d(1) have dd: "d \<noteq> CR" "d \<noteq> LF" "d \<noteq> QUOTE" by auto
  have rd: "csv_reader d (str_join [d] fs) = Inr [fs]"
    using fs dd by (rule csv_reader_plain)
  have del: "(if TAB \<in> set (str_join [d] fs) then TAB else COMMA) = d"
    using d by auto
  have len: "\<And>c. select_candidate None [fs] = Some c \<Longrightarrow> length c = length CSV_HEADERS"
    using select_candidate_length[of None "[fs]"] by auto
  show ?thesis
  proof (cases "select_candidate None [fs]")
    case None
    then show ?thesis
      using fs(1,3) by (simp add: parse_csv_row_def norm Let_def del rd del: select_candidate.simps)
  next
    case (Some c)
    with len have "length c = length CSV_HEADERS" by simp
    with Some show ?thesis
      using fs(1,3) by (simp add: parse_csv_row_def norm Let_def del rd del: select_candidate.simps)
  qed
qed

lemma no_breaks_CR_LF: "no_breaks v \<Longrightarrow> CR \<notin> set v \<and> LF \<notin> set v"
  by (auto simp add: no_breaks_def list_ex_iff is_linebreak_def)

lemma roundtrip_plain: "roundtrip_value v \<Longrightarrow> plain_field TAB v"
  using no_breaks_CR_LF[of v] by (simp add: roundtrip_value_def plain_field_def)

lemma parse_two_values:
  assumes v: "roundtrip_value v1" "roundtrip_value v2"
    and echo: "map str_lower [v1, v2] \<noteq> map str_lower CSV_HEADERS"
  shows "parse_csv_row (v1 @ [TAB] @ v2)
           = (Some [(''Customer Name'', v1), (''Customer Address'', v2)], None)"
proof -
  let ?line = "v1 @ [TAB] @ v2"
  from v have t: "trimmed v1" "trimmed v2" and nb: "no_breaks v1" "no_breaks v2"
    by (simp_all add: roundtrip_value_def)
  have s: "str_strip v1 = v1" "str_strip v2 = v2"
    using t by (simp_all add: strip_trimmed)
  have "trimmed ?line"
    using t by (simp add: trimmed_def)
  moreover have "no_breaks ?line"
    using nb by (simp add: no_breaks_def is_linebreak_def)
  ultimately have norm: "normalize_raw_text ?line = str_join [TAB] [v1, v2]"
    by (simp add: normalize_fixpoint)
  have sel: "select_candidate None [[v1, v2]] = Some [v1, v2]"
    using echo by (simp add: s length_headers last_n_def)
  have "parse_csv_row ?line =
           (case select_candidate None [[v1, v2]] of
              None \<Rightarrow> (None, Some ''no row with expected column count'')
            | Some c \<Rightarrow> (Some (build_result c), None))"
    using norm v by (intro parse_plain_row[where d = TAB]) (auto simp add: roundtrip_plain)
  then show ?thesis
    unfolding sel by (simp add: build_result_two s)
qed

lemma dict_get_Some: "map_of row k = Some v \<Longrightarrow> dict_get row k dflt = v"
  by (simp add: dict_get_def)

lemma trimmed_examples:
  "trimmed ''Jane Doe''" "trimmed ''5 Oak Ave''" "trimmed ''Jane''" "trimmed ''Doe''"
  "trimmed ''Customer Name''" "trimmed ''Customer Address''"
  by (simp_all add: trimmed_def isspace_def)

lemma strip_examples:
  "str_strip ''Jane Doe'' = ''Jane Doe''" "str_strip ''5 Oak Ave'' = ''5 Oak Ave''"
  "str_strip ''Jane'' = ''Jane''" "str_strip ''Doe'' = ''Doe''"
  "str_strip ''Customer Name'' = ''Customer Name''"
  "str_strip ''Customer Address'' = ''Customer Address''"
  using trimmed_examples by (simp_all add: strip_trimmed)

lemma lower_examples:
  "str_lower ''Jane Doe'' = ''jane doe''" "str_lower ''5 Oak Ave'' = ''5 oak ave''"
  "str_lower ''Jane'' = ''jane''" "str_lower ''Doe'' = ''doe''"
  by (simp_all add: lower_simps)

lemma roundtrip_value_examples: "roundtrip_value ''Jane Doe''" "roundtrip_value ''5 Oak Ave''"
  by (simp_all add: roundtrip_value_def trimmed_examples no_breaks_def is_linebreak_def field_limit_def)

lemma parse_jane_doe:
  "parse_csv_row (''Jane Doe'' @ [TAB] @ ''5 Oak Ave'')
     = (Some [(''Customer Name'', ''Jane Doe''), (''Customer Address'', ''5 Oak Ave'')], None)"
  by (rule parse_two_values)
     (simp_all add: roundtrip_value_examples lower_examples CSV_HEADERS_def lower_customer_name)

text \<open>Rows that do not survive serialization and parsing.\<close>

lemma ce_empty_value:
  "parse_csv_row (serialize_row [(''Customer Name'', []), (''Customer Address'', ''5 Oak Ave'')])
     = (None, Some ''no row with expected column count'')"
proof -
  have ser: "serialize_row [(''Customer Name'', []), (''Customer Address'', ''5 Oak Ave'')]
               = TAB # ''5 Oak Ave''"
    by (simp add: serialize_row_def CSV_HEADERS_def dict_get_def)
  have norm: "normalize_raw_text (TAB # ''5 Oak Ave'') = str_join [COMMA] [''5 Oak Ave'']"
    by code_simp
  have sel: "select_candidate None [[''5 Oak Ave'']] = None"
    by (simp add: strip_examples lower_examples CSV_HEADERS_def)
  have "parse_csv_row (TAB # ''5 Oak Ave'') =
           (case select_candidate None [[''5 Oak Ave'']] of
              None \<Rightarrow> (None, Some ''no row with expected column count'')
            | Some c \<Rightarrow> (Some (build_result c), None))"
    using norm by (rule parse_plain_row) (simp_all add: plain_field_def field_limit_def)
  then show ?thesis
    unfolding sel ser by simp
qed

lemma ce_header_echo:
  "parse_csv_row (serialize_row [(''Customer Name'', ''Customer Name''),
                                  (''Customer Address'', ''Customer Address'')])
     = (None, Some ''no row with expected column count'')"
proof -
  let ?line = "''Customer Name'' @ [TAB] @ ''Customer Address''"
  have ser: "serialize_row [(''Customer Name'', ''Customer Name''),
                            (''Customer Address'', ''Customer Address'')] = ?line"
    by (simp add: serialize_row_def CSV_HEADERS_def dict_get_def)
  have "trimmed ?line" "no_breaks ?line"
    by (simp_all add: trimmed_def isspace_def no_breaks_def is_linebreak_def)
  then have norm: "normalize_raw_text ?line = str_join [TAB] [''Customer Name'', ''Customer Address'']"
    by (simp add: normalize_fixpoint)
  have sel: "select_candidate None [[''Customer Name'', ''Customer Address'']] = None"
    by (simp add: strip_examples CSV_HEADERS_def)
  have "parse_csv_row ?line =
           (case select_candidate None [[''Customer Name'', ''Customer Address'']] of
              None \<Rightarrow> (None, Some ''no row with expected column count'')
            | Some c \<Rightarrow> (Some (build_result c), None))"
    using norm by (rule parse_plain_row) (simp_all add: plain_field_def field_limit_def)
  then show ?thesis
    unfolding sel ser by simp
qed

lemma ce_line_break:
  "parse_csv_row (serialize_row [(''Customer Name'', ''Jane'' @ [LF] @ ''Doe''),
                                  (''Customer Address'', ''5 Oak Ave'')])
     = (Some [(''Customer Name'', ''Doe''), (''Customer Address'', ''5 Oak Ave'')], None)"
proof -
  let ?line = "''Jane'' @ [LF] @ ''Doe'' @ [TAB] @ ''5 Oak Ave''"
  have ser: "serialize_row [(''Customer Name'', ''Jane'' @ [LF] @ ''Doe''),
                            (''Customer Address'', ''5 Oak Ave'')] = ?line"
    by (simp add: serialize_row_def CSV_HEADERS_def dict_get_def)
  have norm: "normalize_raw_text ?line = str_join [TAB] [''Jane'', ''Doe'', ''5 Oak Ave'']"
    by code_simp
  have sel: "select_candidate None [[''Jane'', ''Doe'', ''5 Oak Ave'']] = Some [''Doe'', ''5 Oak Ave'']"
    by (simp add: strip_examples lower_examples CSV_HEADERS_def last_n_def)
  have "parse_csv_row ?line =
           (case select_candidate None [[''Jane'', ''Doe'', ''5 Oak Ave'']] of
              None \<Rightarrow> (None, Some ''no row with expected column count'')
            | Some c \<Rightarrow> (Some (build_result c), None))"
    using norm by (rule parse_plain_row) (simp_all add: plain_field_def field_limit_def)
  then show ?thesis
    unfolding sel ser by (simp add: build_result_two strip_examples)
qed

lemma csv_quoted_example:
  "csv_reader TAB (''Jane'' @ [TAB, QUOTE] @ ''5 Oak'') = Inr [[''Jane'', ''5 Oak'']]"
  by (simp add: csv_reader_def stringio_lines_def parse_reset_def process_line_def
      parse_process_char_def start_field_def parse_add_char_def parse_save_field_def
      field_limit_def)

lemma ce_leading_quote:
  "parse_csv_row (serialize_row [(''Customer Name'', ''Jane''),
                                  (''Customer Address'', QUOTE # ''5 Oak'')])
     = (Some [(''Customer Name'', ''Jane''), (''Customer Address'', ''5 Oak'')], None)"
proof -
  let ?line = "''Jane'' @ [TAB, QUOTE] @ ''5 Oak''"
  have ser: "serialize_row [(''Customer Name'', ''Jane''),
                            (''Customer Address'', QUOTE # ''5 Oak'')] = ?line"
    by (simp add: serialize_row_def CSV_HEADERS_def dict_get_def)
  have "trimmed ?line" "no_breaks ?line"
    by (simp_all add: trimmed_def isspace_def no_breaks_def is_linebreak_def)
  then have norm: "normalize_raw_text ?line = ?line"
    by (simp add: normalize_fixpoint)
  have t: "trimmed ''5 Oak''" by (simp add: trimmed_def isspace_def)
  have sel: "select_candidate None [[''Jane'', ''5 Oak'']] = Some [''Jane'', ''5 Oak'']"
    by (simp add: strip_examples strip_trimmed[OF t] lower_simps CSV_HEADERS_def last_n_def)
  show ?thesis
    unfolding ser parse_csv_row_def norm Let_def
    using csv_quoted_example sel
    by (simp add: build_result_two strip_examples strip_trimmed[OF t] length_headers
        del: select_candidate.simps)
qed

section \<open>Facts about two-line answers and about runs of the retry loop\<close>

text \<open>More on trimming and on splitting into lines.\<close>

lemma lstrip_nonempty: "(str_lstrip x \<noteq> []) = (\<exists>c \<in> set x. \<not> isspace c)"
  by (simp add: str_lstrip_def)

lemma rstrip_nonempty: "(str_rstrip x \<noteq> []) = (\<exists>c \<in> set x. \<not> isspace c)"
  by (simp add: str_rstrip_def)

lemma set_lstrip: "set (str_lstrip x) \<subseteq> set x"
  unfolding str_lstrip_def by (auto dest: set_dropWhileD)

lemma strip_nonempty: "(str_strip x \<noteq> []) = (\<exists>c \<in> set x. \<not> isspace c)"
proof
  assume "str_strip x \<noteq> []"
  then have "\<exists>c \<in> set (str_lstrip x). \<not> isspace c"
    by (simp add: str_strip_def rstrip_nonempty)
  with set_lstrip show "\<exists>c \<in> set x. \<not> isspace c" by blast
next
  assume "\<exists>c \<in> set x. \<not> isspace c"
  then have ne: "str_lstrip x \<noteq> []" by (simp add: lstrip_nonempty)
  then have "\<not> isspace (hd (str_lstrip x))" by (rule lstrip_hd)
  with ne have "\<exists>c \<in> set (str_lstrip x). \<not> isspace c"
    by (meson hd_in_set)
  then show "str_strip x \<noteq> []"
    by (simp add: str_strip_def rstrip_nonempty)
qed

lemma lstrip_append: "str_lstrip x \<noteq> [] \<Longrightarrow> str_lstrip (x @ z) = str_lstrip x @ z"
  unfolding lstrip_nonempty str_lstrip_def by auto

lemma rstrip_append: "str_rstrip y \<noteq> [] \<Longrightarrow> str_rstrip (z @ y) = z @ str_rstrip y"
  unfolding rstrip_nonempty str_rstrip_def by auto

lemma strip_between:
  assumes "str_strip x \<noteq> []" "str_strip y \<noteq> []"
  shows "str_strip (x @ m @ y) = str_lstrip x @ m @ str_rstrip y"
proof -
  from assms have l: "str_lstrip x \<noteq> []" and r: "str_rstrip y \<noteq> []"
    by (simp_all add: strip_nonempty lstrip_nonempty rstrip_nonempty)
  have "str_strip (x @ m @ y) = str_rstrip ((str_lstrip x @ m) @ y)"
    by (simp add: str_strip_def lstrip_append[OF l])
  also have "\<dots> = (str_lstrip x @ m) @ str_rstrip y"
    by (rule rstrip_append[OF r])
  finally show ?thesis by simp
qed

lemma lstrip_idem: "str_lstrip (str_lstrip x) = str_lstrip x"
  by (simp add: str_lstrip_def)

lemma rstrip_idem: "str_rstrip (str_rstrip x) = str_rstrip x"
  by (simp add: str_rstrip_def)

lemma strip_lstrip: "str_strip (str_lstrip x) = str_strip x"
  by (simp add: str_strip_def lstrip_idem)

lemma strip_rstrip: "str_strip (str_rstrip x) = str_strip x"
proof (cases "str_strip x = []")
  case True
  then have "\<forall>c \<in> set x. isspace c" using strip_nonempty[of x] by blast
  then have "str_rstrip x = []" using rstrip_nonempty by blast
  with True show ?thesis by (simp add: strip_Nil)
next
  case False
  let ?a = "takeWhile isspace x"
  have x: "x = ?a @ str_lstrip x" by (simp add: str_lstrip_def)
  from False have "str_rstrip (str_lstrip x) \<noteq> []" by (simp add: str_strip_def)
  then have "str_rstrip (?a @ str_lstrip x) = ?a @ str_rstrip (str_lstrip x)"
    by (rule rstrip_append)
  with x have r: "str_rstrip x = ?a @ str_strip x"
    by (simp add: str_strip_def)
  have t: "trimmed (str_strip x)" using False by (rule strip_is_trimmed)
  have "str_lstrip (?a @ str_strip x) = str_lstrip (str_strip x)"
    unfolding str_lstrip_def by (rule dropWhile_append2) (auto dest: set_takeWhileD)
  also have "\<dots> = str_strip x"
    using t by (simp add: trimmed_def lstrip_trimmed)
  finally have "str_strip (str_rstrip x) = str_rstrip (str_strip x)"
    by (simp add: r str_strip_def)
  also have "\<dots> = str_strip x"
    using t by (simp add: trimmed_def rstrip_trimmed)
  finally show ?thesis .
qed

lemma length_lstrip: "length (str_lstrip x) \<le> length x"
  by (simp add: str_lstrip_def length_dropWhile_le)

lemma length_rstrip: "length (str_rstrip x) \<le> length x"
  using length_dropWhile_le[of isspace "rev x"] by (simp add: str_rstrip_def)

lemma rstrip_chars_id: "s \<noteq> [] \<Longrightarrow> last s \<notin> set cs \<Longrightarrow> str_rstrip_chars cs s = s"
  by (cases s rule: rev_cases) (simp_all add: str_rstrip_chars_def)

lemma splitlines_two:
  assumes "no_breaks a" "no_breaks b" "b \<noteq> []"
  shows "str_splitlines (a @ LF # b) = [a, b]"
proof -
  have "splitlines_from [] (a @ LF # b) = splitlines_from ([] @ a) (LF # b)"
    using assms(1) by (rule splitlines_from_no_breaks)
  also have "\<dots> = a # splitlines_from [] b"
    by (simp add: is_linebreak_def)
  also have "splitlines_from [] b = [b]"
    using splitlines_single[OF assms(3,2)] by (simp add: str_splitlines_def)
  finally show ?thesis by (simp add: str_splitlines_def)
qed

lemma no_breaks_append: "no_breaks (a @ b) = (no_breaks a \<and> no_breaks b)"
  by (auto simp add: no_breaks_def)

lemma no_breaks_Cons: "no_breaks (c # s) = (\<not> is_linebreak c \<and> no_breaks s)"
  by (auto simp add: no_breaks_def)

lemma delimiter_no_break: "d = TAB \<or> d = COMMA \<Longrightarrow> \<not> is_linebreak d"
  by (auto simp add: is_linebreak_def)

text \<open>A header line followed by a data line, both delimited in the same way.\<close>

lemma proper_tokenD:
  assumes "proper_token t"
  shows "TAB \<notin> set t" "COMMA \<notin> set t" "QUOTE \<notin> set t" "no_breaks t"
    "str_strip t \<noteq> []" "length t \<le> field_limit"
  using assms by (auto simp add: proper_token_def no_breaks_def list_ex_iff)

lemma proper_part:
  assumes "proper_token t" "f = str_lstrip t \<or> f = str_rstrip t"
  shows "f \<noteq> []" "TAB \<notin> set f" "COMMA \<notin> set f" "QUOTE \<notin> set f" "no_breaks f"
    "length f \<le> field_limit" "str_strip f = str_strip t"
proof -
  note p = proper_tokenD[OF assms(1)]
  from p(5) have "str_lstrip t \<noteq> []" "str_rstrip t \<noteq> []"
    by (simp_all add: strip_nonempty lstrip_nonempty rstrip_nonempty)
  with assms(2) show "f \<noteq> []" by auto
  have sub: "set f \<subseteq> set t"
    using assms(2) set_lstrip set_rstrip by auto
  with p show "TAB \<notin> set f" "COMMA \<notin> set f" "QUOTE \<notin> set f" by auto
  from sub p(4) show "no_breaks f" by (rule no_breaks_subset)
  have "length f \<le> length t"
    using assms(2) length_lstrip length_rstrip by auto
  with p(6) show "length f \<le> field_limit" by simp
  show "str_strip f = str_strip t"
    using assms(2) strip_lstrip strip_rstrip by auto
qed

lemma proper_part_plain:
  assumes "proper_token t" "f = str_lstrip t \<or> f = str_rstrip t" "d = TAB \<or> d = COMMA"
  shows "plain_field d f"
proof -
  note q = proper_part[OF assms(1,2)]
  from q(1,4) have "hd f \<noteq> QUOTE" by (metis hd_in_set)
  moreover from q(5) have "CR \<notin> set f" "LF \<notin> set f"
    using no_breaks_CR_LF by blast+
  ultimately show ?thesis
    using q assms(3) by (auto simp add: plain_field_def)
qed

lemma normalize_header_data:
  assumes d: "d = TAB \<or> d = COMMA"
    and p: "proper_token h1" "proper_token h2" "proper_token v1" "proper_token v2"
  shows "normalize_raw_text (h1 @ [d] @ h2 @ [LF] @ v1 @ [d] @ v2)
           = str_join [d] [str_lstrip h1, str_rstrip h2, str_lstrip v1, str_rstrip v2]"
proof -
  let ?raw = "h1 @ [d] @ h2 @ [LF] @ v1 @ [d] @ v2"
  let ?f1 = "str_lstrip h1" and ?f2 = "str_rstrip h2"
  let ?f3 = "str_lstrip v1" and ?f4 = "str_rstrip v2"
  let ?l1 = "?f1 @ [d] @ ?f2" and ?l2 = "?f3 @ [d] @ ?f4"
  note q1 = proper_part[OF p(1) disjI1[OF refl]] and q2 = proper_part[OF p(2) disjI2[OF refl]]
    and q3 = proper_part[OF p(3) disjI1[OF refl]] and q4 = proper_part[OF p(4) disjI2[OF refl]]
  note t1 = proper_tokenD[OF p(1)] and t2 = proper_tokenD[OF p(2)]
    and t3 = proper_tokenD[OF p(3)] and t4 = proper_tokenD[OF p(4)]
  have "str_strip (h1 @ ([d] @ h2 @ [LF] @ v1 @ [d]) @ v2)
          = ?f1 @ ([d] @ h2 @ [LF] @ v1 @ [d]) @ ?f4"
    using t1(5) t4(5) by (rule strip_between)
  then have a: "str_strip ?raw = (?f1 @ [d] @ h2) @ LF # (v1 @ [d] @ ?f4)"
    by simp
  have nb: "no_breaks (?f1 @ [d] @ h2)" "no_breaks (v1 @ [d] @ ?f4)"
    using q1(5) t2(4) t3(4) q4(5) delimiter_no_break[OF d]
    by (simp_all add: no_breaks_append no_breaks_Cons)
  have b: "str_splitlines (str_strip ?raw) = [?f1 @ [d] @ h2, v1 @ [d] @ ?f4]"
    unfolding a using nb by (rule splitlines_two) simp
  have "str_strip (?f1 @ [d] @ h2) = str_lstrip ?f1 @ [d] @ ?f2"
    using q1(7) t1(5) t2(5) by (intro strip_between) simp_all
  then have c1: "str_strip (?f1 @ d # h2) = ?l1"
    by (simp add: lstrip_idem)
  have "str_strip (v1 @ [d] @ ?f4) = ?f3 @ [d] @ str_rstrip ?f4"
    using q4(7) t3(5) t4(5) by (intro strip_between) simp_all
  then have c2: "str_strip (v1 @ d # ?f4) = ?l2"
    by (simp add: rstrip_idem)
  have tl: "trimmed_lines ?raw = [?l1, ?l2]"
    unfolding trimmed_lines_def b by (simp add: c1 c2)
  have ne: "str_strip ?raw \<noteq> []"
    unfolding a by simp
  have n: "normalize_raw_text ?raw =
       (if list_ex (\<lambda>line. TAB \<in> set line) [?l1, ?l2] then str_join [TAB] [?l1, ?l2]
        else if length [?l1, ?l2] \<ge> 2 \<and> COMMA \<notin> set ([?l1, ?l2] ! 0)
          then [?l1, ?l2] ! 0 @ [TAB] @ str_join '' '' (drop 1 [?l1, ?l2])
        else str_join '','' (map (str_rstrip_chars '','') [?l1, ?l2]))"
    unfolding normalize_raw_text_lines tl using ne by simp
  show ?thesis
  proof (cases "d = TAB")
    case True
    show ?thesis
      unfolding n using True by simp
  next
    case False
    with d have dc: "d = COMMA" by simp
    have notab: "TAB \<notin> set ?l1" "TAB \<notin> set ?l2"
      using q1(2) q2(2) q3(2) q4(2) dc by simp_all
    have "last ?l1 = last ?f2" "last ?l2 = last ?f4"
      using q2(1) q4(1) by simp_all
    moreover have "last ?f2 \<noteq> COMMA" "last ?f4 \<noteq> COMMA"
      using q2(1,3) q4(1,3) by (metis last_in_set)+
    ultimately have r: "str_rstrip_chars '','' ?l1 = ?l1" "str_rstrip_chars '','' ?l2 = ?l2"
      by (simp_all add: rstrip_chars_id)
    have "normalize_raw_text ?raw = str_join '','' (map (str_rstrip_chars '','') [?l1, ?l2])"
      unfolding n using notab dc by simp
    also have "\<dots> = str_join '','' [?l1, ?l2]"
      using r by simp
    finally show ?thesis
      using dc by simp
  qed
qed

lemma strip_padded_examples:
  "str_strip '' Customer Address'' = ''Customer Address''" "str_strip '' 5 Oak Ave'' = ''5 Oak Ave''"
  by (simp_all add: str_strip_def str_lstrip_def str_rstrip_def isspace_def)

lemma proper_token_examples:
  "proper_token ''Customer Name''" "proper_token '' Customer Address''"
  "proper_token ''Jane Doe''" "proper_token '' 5 Oak Ave''"
  by (simp_all add: proper_token_def strip_padded_examples strip_examples is_linebreak_def
      field_limit_def)

lemma strip_comma_row: "str_strip ''Jane Doe, 5 Oak Ave'' = ''Jane Doe, 5 Oak Ave''"
  by (rule strip_trimmed) (simp add: trimmed_def isspace_def)

lemma parse_comma_row:
  "parse_csv_row ''Jane Doe, 5 Oak Ave''
     = (Some [(''Customer Name'', ''Jane Doe''), (''Customer Address'', ''5 Oak Ave'')], None)"
proof -
  have norm: "normalize_raw_text ''Jane Doe, 5 Oak Ave'' = str_join [COMMA] [''Jane Doe'', '' 5 Oak Ave'']"
    by code_simp
  have sel: "select_candidate None [[''Jane Doe'', '' 5 Oak Ave'']] = Some [''Jane Doe'', ''5 Oak Ave'']"
    by (simp add: strip_examples strip_padded_examples lower_examples lower_customer_name
        CSV_HEADERS_def last_n_def)
  have "parse_csv_row ''Jane Doe, 5 Oak Ave'' =
           (case select_candidate None [[''Jane Doe'', '' 5 Oak Ave'']] of
              None \<Rightarrow> (None, Some ''no row with expected column count'')
            | Some c \<Rightarrow> (Some (build_result c), None))"
    using norm by (rule parse_plain_row) (simp_all add: plain_field_def field_limit_def)
  then show ?thesis
    unfolding sel by (simp add: build_result_two strip_examples)
qed

lemma parse_tab_header_comma_row:
  "parse_csv_row (''Customer Name'' @ [TAB] @ ''Customer Address'' @ [LF] @ ''Jane Doe, 5 Oak Ave'')
     = (Some [(''Customer Name'', ''Customer Address''),
              (''Customer Address'', ''Jane Doe, 5 Oak Ave'')], None)"
proof -
  let ?raw = "''Customer Name'' @ [TAB] @ ''Customer Address'' @ [LF] @ ''Jane Doe, 5 Oak Ave''"
  let ?fs = "[''Customer Name'', ''Customer Address'', ''Jane Doe, 5 Oak Ave'']"
  have norm: "normalize_raw_text ?raw = str_join [TAB] ?fs"
    by code_simp
  have sel: "select_candidate None [?fs] = Some [''Customer Address'', ''Jane Doe, 5 Oak Ave'']"
    by (simp add: strip_examples strip_comma_row CSV_HEADERS_def last_n_def)
  have "parse_csv_row ?raw =
           (case select_candidate None [?fs] of
              None \<Rightarrow> (None, Some ''no row with expected column count'')
            | Some c \<Rightarrow> (Some (build_result c), None))"
    using norm by (rule parse_plain_row) (simp_all add: plain_field_def field_limit_def)
  then show ?thesis
    unfolding sel by (simp add: build_result_two strip_examples strip_comma_row)
qed

text \<open>Runs of the retry loop.\<close>

lemma evaluate_blank: "evaluate_answer [(''answer'', [])] = Inl ''empty response''"
  by (simp add: evaluate_answer_def dict_get_def strip_Nil parse_csv_row_def
      normalize_raw_text_def or_else_def)

lemma request_loop_exhausts:
  assumes af: "\<forall>s p. \<exists>d s' err. query s img p = (Inr d, s') \<and> evaluate_answer d = Inl err"
  shows "\<exists>new sf le'.
           request_loop query img K attempts le cp calls s
             = (Inl (ValueError (exhausted_message K le')), calls @ new, sf)
           \<and> length new = length attempts
           \<and> (attempts = [] \<longrightarrow> le' = le)
           \<and> (attempts \<noteq> [] \<longrightarrow>
                (\<exists>p d err s0. last new = (p, Inr d) \<and> query s0 img p = (Inr d, sf)
                   \<and> evaluate_answer d = Inl err \<and> le' = Some err))"
proof (induction attempts arbitrary: le cp calls s)
  case Nil
  show ?case by simp
next
  case (Cons attempt rest)
  let ?p = "if 0 < attempt then retry_prompt le else cp"
  from af obtain d s1 err where q: "query s img ?p = (Inr d, s1)" "evaluate_answer d = Inl err"
    by blast
  from Cons.IH[of "Some err" ?p "calls @ [(?p, Inr d)]" s1]
  obtain new sf le' where
    r: "request_loop query img K rest (Some err) ?p (calls @ [(?p, Inr d)]) s1
          = (Inl (ValueError (exhausted_message K le')), (calls @ [(?p, Inr d)]) @ new, sf)"
    and n: "length new = length rest"
    and e: "rest = [] \<longrightarrow> le' = Some err"
    and l: "rest \<noteq> [] \<longrightarrow> (\<exists>p d err s0. last new = (p, Inr d) \<and> query s0 img p = (Inr d, sf)
                   \<and> evaluate_answer d = Inl err \<and> le' = Some err)"
    by blast
  have step: "request_loop query img K (attempt # rest) le cp calls s
          = (Inl (ValueError (exhausted_message K le')), calls @ ((?p, Inr d) # new), sf)"
    using q r by (simp add: Let_def)
  have lst: "\<exists>p d' err s0. last ((?p, Inr d) # new) = (p, Inr d') \<and> query s0 img p = (Inr d', sf)
               \<and> evaluate_answer d' = Inl err \<and> le' = Some err"
  proof (cases "rest = []")
    case True
    with n have "new = []" by simp
    moreover from True r have "sf = s1" by simp
    ultimately show ?thesis
      using q e True
      by (intro exI[of _ ?p] exI[of _ d] exI[of _ err] exI[of _ s]) simp
  next
    case False
    with n have "new \<noteq> []" by auto
    with l False show ?thesis by simp
  qed
  show ?case
  proof (intro exI conjI)
    show "request_loop query img K (attempt # rest) le cp calls s
            = (Inl (ValueError (exhausted_message K le')), calls @ ((?p, Inr d) # new), sf)"
      by (rule step)
    show "length ((?p, Inr d) # new) = length (attempt # rest)"
      using n by simp
    show "attempt # rest = [] \<longrightarrow> le' = le"
      by simp
    show "attempt # rest \<noteq> [] \<longrightarrow>
            (\<exists>p d' err s0. last ((?p, Inr d) # new) = (p, Inr d') \<and> query s0 img p = (Inr d', sf)
               \<and> evaluate_answer d' = Inl err \<and> le' = Some err)"
      by (rule impI) (rule lst)
  qed
qed

lemma request_loop_raise:
  assumes "query s img (if 0 < attempt then retry_prompt last_error else current_prompt) = (Inl exc, s')"
  shows "request_loop query img K (attempt # rest) last_error current_prompt calls s
           = (Inl (QueryRaised exc),
              calls @ [(if 0 < attempt then retry_prompt last_error else current_prompt, Inl exc)],
              s')"
  using assms by (simp add: Let_def)

lemma request_loop_log:
  assumes "request_loop query img K attempts le cp calls s = (outcome, log, sf)"
  shows "\<exists>new. log = calls @ new \<and> length new \<le> length attempts
           \<and> (\<forall>i exc. i < length new \<and> snd (new ! i) = Inl exc
                 \<longrightarrow> Suc i = length new \<and> outcome = Inl (QueryRaised exc))"
  using assms
proof (induction attempts arbitrary: le cp calls s)
  case Nil
  then show ?case by simp
next
  case (Cons attempt rest)
  let ?p = "if 0 < attempt then retry_prompt le else cp"
  obtain res s1 where q: "query s img ?p = (res, s1)"
    by (cases "query s img ?p")
  show ?case
  proof (cases res)
    case (Inl exc)
    with q Cons.prems have "log = calls @ [(?p, Inl exc)]" "outcome = Inl (QueryRaised exc)"
      by (simp_all add: Let_def)
    then show ?thesis by simp
  next
    case (Inr d)
    show ?thesis
    proof (cases "evaluate_answer d")
      case (Inr ok)
      with q \<open>res = Inr d\<close> Cons.prems have "log = calls @ [(?p, Inr d)]"
        by (simp add: Let_def)
      then show ?thesis by simp
    next
      case (Inl err)
      with q \<open>res = Inr d\<close> Cons.prems
      have "request_loop query img K rest (Some err) ?p (calls @ [(?p, Inr d)]) s1
              = (outcome, log, sf)"
        by (simp add: Let_def)
      from Cons.IH[OF this] obtain new where
        n: "log = (calls @ [(?p, Inr d)]) @ new" "length new \<le> length rest"
        "\<forall>i exc. i < length new \<and> snd (new ! i) = Inl exc
                 \<longrightarrow> Suc i = length new \<and> outcome = Inl (QueryRaised exc)"
        by blast
      have "\<forall>i exc. i < length ((?p, Inr d) # new) \<and> snd (((?p, Inr d) # new) ! i) = Inl exc
                 \<longrightarrow> Suc i = length ((?p, Inr d) # new) \<and> outcome = Inl (QueryRaised exc)"
      proof (intro allI impI)
        fix i exc
        assume a: "i < length ((?p, Inr d) # new) \<and> snd (((?p, Inr d) # new) ! i) = Inl exc"
        then obtain j where "i = Suc j"
          by (cases i) auto
        with a n(3) show "Suc i = length ((?p, Inr d) # new) \<and> outcome = Inl (QueryRaised exc)"
          by auto
      qed
      with n(1,2) show ?thesis
        by (intro exI[of _ "(?p, Inr d) # new"]) simp
    qed
  qed
qed

lemma failing_run:
  "request_csv_row () failing_model 0 3
     = (Inl (QueryRaised ''timeout''),
        [(CSV_PROMPT, Inr [(''answer'', [])]),
         (retry_prompt (Some ''empty response''), Inl ''timeout'')],
        2)"
proof -
  have u: "[0..<nat 3] = [0, 1, 2]"
    by (simp add: upt_rec)
  show ?thesis
    unfolding request_csv_row_def u
    by (simp add: failing_model_def evaluate_blank Let_def)
qed

section \<open>The claims about the normalizer\<close>

text \<open>
  Claim C2. For every input string, \<^verbatim>\<open>normalize_raw_text\<close> is the priority cascade of the
  specification: the input is trimmed and split into its non-empty trimmed lines, and no
  line gives the empty string; if some line contains a tab, the lines are joined with
  tabs; otherwise, if there are at least two lines and the first has no comma, the result
  is the first line, a tab and the other lines joined with spaces; otherwise the lines,
  each without its trailing commas, are joined with commas. The function is total: the
  code has no raising statement on any of its paths, and the model needs no error value.
\<close>

theorem normalize_raw_text_cascade: "normalize_raw_text raw = normalize_cascade raw"
proof (cases "trimmed_lines raw")
  case Nil
  then show ?thesis
    by (simp add: normalize_raw_text_lines normalize_cascade_def)
next
  case (Cons first others)
  then have ne: "str_strip raw \<noteq> []"
    using trimmed_lines_blank by fastforce
  have len: "(2 \<le> length (first # others)) = (others \<noteq> [])"
    by (cases others) simp_all
  show ?thesis
    unfolding normalize_raw_text_lines normalize_cascade_def Cons
    using ne len by (simp add: drop_Suc)
qed

text \<open>
  Claim C9, as stated: for every input that contains a tab, normalizing twice gives the
  same as normalizing once. This fails when trimming removes the only tab and the comma
  fallback leaves a trailing space: the input \<^verbatim>\<open>"\tb ,"\<close> is normalized to \<^verbatim>\<open>"b "\<close>, which is
  normalized to \<^verbatim>\<open>"b"\<close>.
\<close>

theorem normalize_idempotent_counterexample:
  "TAB \<in> set (TAB # ''b ,'')
   \<and> normalize_raw_text (TAB # ''b ,'') = ''b ''
   \<and> normalize_raw_text (normalize_raw_text (TAB # ''b ,'')) = ''b''
   \<and> normalize_raw_text (normalize_raw_text (TAB # ''b ,'')) \<noteq> normalize_raw_text (TAB # ''b ,'')"
proof -
  have a: "normalize_raw_text (TAB # ''b ,'') = ''b ''"
    by code_simp
  have b: "normalize_raw_text ''b '' = ''b''"
    by code_simp
  show ?thesis
    unfolding a b by simp
qed

text \<open>
  Claim C9, amended: for every input whose normalization contains a tab (the tab branch
  or the two-column branch was taken; in particular whenever some trimmed line of the
  input contains a tab, see \<open>tab_line_normalize\<close>), normalizing twice gives the same as
  normalizing once.
\<close>

theorem normalize_idempotent_tab:
  assumes "TAB \<in> set (normalize_raw_text x)"
  shows "normalize_raw_text (normalize_raw_text x) = normalize_raw_text x"
proof -
  let ?ls = "trimmed_lines x"
  have mem: "\<forall>l \<in> set ?ls. trimmed l" "\<forall>l \<in> set ?ls. no_breaks l"
    using trimmed_lines_member by blast+
  have nbt: "no_breaks [TAB]" "no_breaks '' ''"
    by (simp_all add: no_breaks_def is_linebreak_def)
  from assms have ne: "str_strip x \<noteq> []" "?ls \<noteq> []"
    by (auto simp add: normalize_raw_text_lines split: if_splits)
  show ?thesis
  proof (cases "list_ex (\<lambda>line. TAB \<in> set line) ?ls")
    case True
    with ne have eq: "normalize_raw_text x = str_join [TAB] ?ls"
      by (simp add: normalize_raw_text_lines)
    have "trimmed (str_join [TAB] ?ls)" "no_breaks (str_join [TAB] ?ls)"
      using join_trimmed[OF ne(2) mem(1)] join_no_breaks[OF mem(2) nbt(1)] by simp_all
    with assms show ?thesis
      unfolding eq by (rule normalize_fixpoint[rotated 2])
  next
    case False
    show ?thesis
    proof (cases "length ?ls \<ge> 2 \<and> COMMA \<notin> set (?ls ! 0)")
      case True
      let ?r = "?ls ! 0 @ [TAB] @ str_join '' '' (drop 1 ?ls)"
      from True ne False have eq: "normalize_raw_text x = ?r"
        by (simp add: normalize_raw_text_lines)
      from True have d: "drop 1 ?ls \<noteq> []" by auto
      have dm: "\<forall>l \<in> set (drop 1 ?ls). trimmed l" "\<forall>l \<in> set (drop 1 ?ls). no_breaks l"
        using mem by (meson in_set_dropD)+
      have t1: "trimmed (str_join '' '' (drop 1 ?ls))" "no_breaks (str_join '' '' (drop 1 ?ls))"
        using join_trimmed[OF d dm(1)] join_no_breaks[OF dm(2) nbt(2)] by simp_all
      from True have "?ls ! 0 \<in> set ?ls" by (simp add: ne(2))
      with mem have t0: "trimmed (?ls ! 0)" "no_breaks (?ls ! 0)" by blast+
      from t0 t1 have "trimmed ?r"
        by (simp add: trimmed_def)
      moreover from t0 t1 have "no_breaks ?r"
        by (simp add: no_breaks_def is_linebreak_def)
      moreover have "TAB \<in> set ?r" by simp
      ultimately show ?thesis
        unfolding eq by (rule normalize_fixpoint)
    next
      case nf: False
      with False ne have eq: "normalize_raw_text x = str_join '','' (map (str_rstrip_chars '','') ?ls)"
        by (auto simp add: normalize_raw_text_lines)
      have "TAB \<notin> set (str_join '','' (map (str_rstrip_chars '','') ?ls))"
        using set_join[of "'',''" "map (str_rstrip_chars '','') ?ls"] False set_rstrip_chars
        by (fastforce simp add: list_ex_iff)
      with assms eq show ?thesis by simp
    qed
  qed
qed

theorem normalize_idempotent_tab_witness:
  "TAB \<in> set (normalize_raw_text (''a'' @ [TAB] @ ''b'' @ [LF] @ ''c''))
   \<and> normalize_raw_text (normalize_raw_text (''a'' @ [TAB] @ ''b'' @ [LF] @ ''c''))
       = normalize_raw_text (''a'' @ [TAB] @ ''b'' @ [LF] @ ''c'')"
proof -
  have h: "TAB \<in> set (normalize_raw_text (''a'' @ [TAB] @ ''b'' @ [LF] @ ''c''))"
    by code_simp
  from h normalize_idempotent_tab[OF h] show ?thesis
    by (rule conjI)
qed

section \<open>The claims about the validator and the parser\<close>

text \<open>
  Claim C5. \<^verbatim>\<open>validate_csv_row\<close> returns the error "<field> still contains placeholder
  text" exactly when some field's value, trimmed, is not empty and its lowercase form
  starts with the lowercase field name; the field reported is the first such field in
  schema order (\<^const>\<open>find\<close> returns the first element of the list that passes the test),
  and there is no error otherwise. The value "Customer Name: Jane Doe" for the field
  "Customer Name" fails, whatever the address is, and the value "Jane Doe" passes.
\<close>

theorem validate_csv_row_first_echo:
  "validate_csv_row row =
     (case find (placeholder_echo row) CSV_HEADERS of
        None \<Rightarrow> None
      | Some header \<Rightarrow> Some (header @ '' still contains placeholder text''))
   \<and> validate_csv_row [(''Customer Name'', ''Customer Name: Jane Doe''), (''Customer Address'', a)]
        = Some ''Customer Name still contains placeholder text''
   \<and> validate_csv_row [(''Customer Name'', ''Jane Doe''), (''Customer Address'', ''5 Oak Ave'')]
        = None"
  using validate_echo_example validate_plain_example
  by (simp add: validate_csv_row_def validate_headers_find)

text \<open>
  Claim C6. Whenever \<^verbatim>\<open>parse_csv_row\<close> succeeds, the keys of the returned row are exactly
  the schema field names (each once, in schema order), every value is left unchanged by
  \<^verbatim>\<open>strip()\<close>, and no error accompanies the row.
\<close>

theorem parse_csv_row_keys_trimmed:
  assumes "parse_csv_row raw = (Some r, e)"
  shows "map fst r = CSV_HEADERS \<and> (\<forall>v \<in> set (map snd r). str_strip v = v) \<and> e = None"
proof -
  from parse_csv_row_cases[of raw] assms
  obtain c where c: "length c = length CSV_HEADERS" "r = build_result c" "e = None"
    by auto
  from c(1) obtain a b where "c = [a, b]"
    by (cases c; cases "tl c") (auto simp add: length_headers)
  with c show ?thesis
    by (simp add: build_result_two CSV_HEADERS_def strip_idem)
qed

theorem parse_csv_row_keys_trimmed_witness:
  "parse_csv_row (''Jane Doe'' @ [TAB] @ ''5 Oak Ave'')
     = (Some [(''Customer Name'', ''Jane Doe''), (''Customer Address'', ''5 Oak Ave'')], None)
   \<and> map fst [(''Customer Name'', ''Jane Doe''), (''Customer Address'', ''5 Oak Ave'')] = CSV_HEADERS
   \<and> str_strip ''Jane Doe'' = ''Jane Doe'' \<and> str_strip ''5 Oak Ave'' = ''5 Oak Ave''"
  using parse_csv_row_keys_trimmed[OF parse_jane_doe] parse_jane_doe by simp

text \<open>
  Claim C8. The candidate-selection loop, started as the code starts it with no
  candidate, only ever produces a candidate of exactly \<^verbatim>\<open>len(CSV_HEADERS)\<close> tokens, and
  \<^verbatim>\<open>parse_csv_row\<close> never returns an error that begins with "expected ": the defensive
  length check cannot fail.
\<close>

theorem expected_columns_unreachable:
  "(select_candidate None rows = Some candidate \<longrightarrow> length candidate = length CSV_HEADERS)
   \<and> snd (parse_csv_row raw) \<noteq> Some (''expected '' @ rest)"
proof
  show "select_candidate None rows = Some candidate \<longrightarrow> length candidate = length CSV_HEADERS"
    using select_candidate_length[of None rows candidate] by simp
next
  from parse_csv_row_cases[of raw]
  show "snd (parse_csv_row raw) \<noteq> Some (''expected '' @ rest)"
    by (elim disjE exE conjE) simp_all
qed

theorem expected_columns_unreachable_witness:
  "select_candidate None [[''x'', ''Jane Doe'', ''5 Oak Ave'']] = Some [''Jane Doe'', ''5 Oak Ave'']
   \<and> length [''Jane Doe'', ''5 Oak Ave''] = length CSV_HEADERS"
  using expected_columns_unreachable[of "[[''x'', ''Jane Doe'', ''5 Oak Ave'']]" "[''Jane Doe'', ''5 Oak Ave'']"]
    select_example by simp

text \<open>
  Claim C3, as stated: for every input that is a header echo followed by a proper data
  row, \<^verbatim>\<open>parse_csv_row\<close> returns the data row and never the header. The data row of the
  claim's own example, \<^verbatim>\<open>"Jane Doe, 5 Oak Ave"\<close>, parses to Jane Doe at 5 Oak Ave when it
  stands alone; after a header echo written with a tab, as the prompt asks for, the
  normalizer joins the two lines with a tab, the reader splits at tabs only, and the last
  two of the three tokens are kept: the name returned is the header text
  "Customer Address" and the address is the whole data line.
\<close>

theorem header_echo_then_data_row_counterexample:
  "map str_lower (map str_strip [''Customer Name'', ''Customer Address'']) = map str_lower CSV_HEADERS
   \<and> parse_csv_row ''Jane Doe, 5 Oak Ave''
       = (Some [(''Customer Name'', ''Jane Doe''), (''Customer Address'', ''5 Oak Ave'')], None)
   \<and> parse_csv_row (''Customer Name'' @ [TAB] @ ''Customer Address'' @ [LF] @ ''Jane Doe, 5 Oak Ave'')
       = (Some [(''Customer Name'', ''Customer Address''),
                (''Customer Address'', ''Jane Doe, 5 Oak Ave'')], None)"
  using parse_comma_row parse_tab_header_comma_row
  by (simp add: strip_examples CSV_HEADERS_def)

text \<open>
  Claim C3, amended: for every input made of a header line and a data line that are
  delimited in the same way (both by a tab or both by a comma), where the four tokens are
  proper tokens (not blank, free of tab, comma, double quote and line-break characters,
  within the field size limit) and the trimmed header tokens are the field names up to
  case, \<^verbatim>\<open>parse_csv_row\<close> succeeds with the trimmed tokens of the data line under the field
  names, and so never with the header; in particular the input
  \<^verbatim>\<open>"Customer Name, Customer Address\nJane Doe, 5 Oak Ave"\<close> parses to Jane Doe at
  5 Oak Ave.
\<close>

theorem header_echo_then_data_row:
  assumes d: "d = TAB \<or> d = COMMA"
    and p: "proper_token h1" "proper_token h2" "proper_token v1" "proper_token v2"
    and h: "map str_lower [str_strip h1, str_strip h2] = map str_lower CSV_HEADERS"
  shows "parse_csv_row (h1 @ [d] @ h2 @ [LF] @ v1 @ [d] @ v2)
           = (Some [(''Customer Name'', str_strip v1), (''Customer Address'', str_strip v2)], None)"
proof -
  let ?raw = "h1 @ [d] @ h2 @ [LF] @ v1 @ [d] @ v2"
  let ?fs = "[str_lstrip h1, str_rstrip h2, str_lstrip v1, str_rstrip v2]"
  note q1 = proper_part[OF p(1) disjI1[OF refl]] and q2 = proper_part[OF p(2) disjI2[OF refl]]
    and q3 = proper_part[OF p(3) disjI1[OF refl]] and q4 = proper_part[OF p(4) disjI2[OF refl]]
  have norm: "normalize_raw_text ?raw = str_join [d] ?fs"
    using d p by (rule normalize_header_data)
  have plain: "\<forall>f \<in> set ?fs. plain_field d f"
    using proper_part_plain[OF p(1) disjI1[OF refl] d] proper_part_plain[OF p(2) disjI2[OF refl] d]
      proper_part_plain[OF p(3) disjI1[OF refl] d] proper_part_plain[OF p(4) disjI2[OF refl] d]
    by simp
  have tab: "(TAB \<in> set (str_join [d] ?fs)) = (d = TAB)"
    using q1(2) q2(2) q3(2) q4(2) by auto
  have sel: "select_candidate None [?fs] = Some [str_strip v1, str_strip v2]"
    using q1(7) q2(7) q3(7) q4(7) by (simp add: CSV_HEADERS_def last_n_def)
  have "parse_csv_row ?raw =
           (case select_candidate None [?fs] of
              None \<Rightarrow> (None, Some ''no row with expected column count'')
            | Some c \<Rightarrow> (Some (build_result c), None))"
    using norm _ plain _ d tab by (rule parse_plain_row) simp_all
  then show ?thesis
    unfolding sel by (simp add: build_result_two strip_idem)
qed

theorem header_echo_then_data_row_witness:
  "proper_token ''Customer Name'' \<and> proper_token '' Customer Address''
   \<and> proper_token ''Jane Doe'' \<and> proper_token '' 5 Oak Ave''
   \<and> map str_lower [str_strip ''Customer Name'', str_strip '' Customer Address'']
       = map str_lower CSV_HEADERS
   \<and> parse_csv_row (''Customer Name, Customer Address'' @ [LF] @ ''Jane Doe, 5 Oak Ave'')
       = (Some [(''Customer Name'', ''Jane Doe''), (''Customer Address'', ''5 Oak Ave'')], None)"
proof -
  have h: "map str_lower [str_strip ''Customer Name'', str_strip '' Customer Address'']
             = map str_lower CSV_HEADERS"
    by (simp add: strip_padded_examples strip_examples CSV_HEADERS_def)
  have d: "COMMA = TAB \<or> COMMA = COMMA" by simp
  from header_echo_then_data_row[OF d proper_token_examples h] proper_token_examples h
  show ?thesis
    by (simp add: strip_padded_examples strip_examples)
qed

section \<open>The round trip\<close>

text \<open>
  Claim C4, as stated: every row with trimmed values free of delimiter characters is
  recovered by serializing it with tabs and parsing the line. Four rows of that kind are
  not recovered: a row with an empty name (the leading tab is trimmed away and one token
  is left), a row whose values repeat the header names (the parser skips it as a header
  echo), a row whose name holds a line break (the normalizer splits there and the parser
  keeps the last two of three tokens), and a row whose address opens with a double quote
  (the csv reader removes the quote).
\<close>

theorem serialize_parse_roundtrip_counterexample:
  "parse_csv_row (serialize_row [(''Customer Name'', []), (''Customer Address'', ''5 Oak Ave'')])
     = (None, Some ''no row with expected column count'')
   \<and> parse_csv_row (serialize_row [(''Customer Name'', ''Customer Name''),
                                    (''Customer Address'', ''Customer Address'')])
     = (None, Some ''no row with expected column count'')
   \<and> parse_csv_row (serialize_row [(''Customer Name'', ''Jane'' @ [LF] @ ''Doe''),
                                    (''Customer Address'', ''5 Oak Ave'')])
     = (Some [(''Customer Name'', ''Doe''), (''Customer Address'', ''5 Oak Ave'')], None)
   \<and> parse_csv_row (serialize_row [(''Customer Name'', ''Jane''),
                                    (''Customer Address'', QUOTE # ''5 Oak'')])
     = (Some [(''Customer Name'', ''Jane''), (''Customer Address'', ''5 Oak'')], None)"
  using ce_empty_value ce_header_echo ce_line_break ce_leading_quote
  by (intro conjI)

text \<open>
  Claim C4, amended: for every row whose keys are exactly the schema field names and whose
  values are trimmed and not empty, hold no tab and no line-break character, do not open
  with a double quote, are at most 131072 characters long (the field size limit of the csv
  module) and are not, taken together, a case-insensitive copy of the header names,
  joining the values with tabs in schema order and parsing the line with \<^verbatim>\<open>parse_csv_row\<close>
  succeeds with a row equal to the original (the same value under every key).
\<close>

theorem serialize_parse_roundtrip:
  assumes keys: "distinct (map fst row)" "set (map fst row) = set CSV_HEADERS"
    and vals: "\<forall>v \<in> set (map snd row). roundtrip_value v"
    and echo: "map str_lower (map (\<lambda>header. dict_get row header []) CSV_HEADERS)
                 \<noteq> map str_lower CSV_HEADERS"
  shows "\<exists>r. parse_csv_row (serialize_row row) = (Some r, None) \<and> map_of r = map_of row"
proof -
  from keys(2) have "''Customer Name'' \<in> fst ` set row" "''Customer Address'' \<in> fst ` set row"
    by (simp_all add: CSV_HEADERS_def)
  then have "map_of row ''Customer Name'' \<noteq> None" "map_of row ''Customer Address'' \<noteq> None"
    by (simp_all add: map_of_eq_None_iff)
  then obtain v1 v2 where
    m: "map_of row ''Customer Name'' = Some v1" "map_of row ''Customer Address'' = Some v2"
    by blast
  then have "(''Customer Name'', v1) \<in> set row" "(''Customer Address'', v2) \<in> set row"
    by (simp_all add: map_of_SomeD)
  then have "v1 \<in> set (map snd row)" "v2 \<in> set (map snd row)"
    by force+
  with vals have v: "roundtrip_value v1" "roundtrip_value v2"
    by blast+
  have g: "dict_get row ''Customer Name'' [] = v1" "dict_get row ''Customer Address'' [] = v2"
    using m by (simp_all add: dict_get_Some)
  have ser: "serialize_row row = v1 @ [TAB] @ v2"
    by (simp add: serialize_row_def CSV_HEADERS_def g)
  from echo have e: "map str_lower [v1, v2] \<noteq> map str_lower CSV_HEADERS"
    by (simp add: CSV_HEADERS_def g)
  have p: "parse_csv_row (serialize_row row)
             = (Some [(''Customer Name'', v1), (''Customer Address'', v2)], None)"
    unfolding ser using v e by (rule parse_two_values)
  have "map_of [(''Customer Name'', v1), (''Customer Address'', v2)] k = map_of row k" for k
  proof (cases "k \<in> set CSV_HEADERS")
    case True
    then show ?thesis
      using m by (auto simp add: CSV_HEADERS_def)
  next
    case False
    then have "map_of row k = None"
      using keys(2) by (simp add: map_of_eq_None_iff)
    with False show ?thesis
      by (auto simp add: CSV_HEADERS_def)
  qed
  then have "map_of [(''Customer Name'', v1), (''Customer Address'', v2)] = map_of row"
    by (rule ext)
  with p show ?thesis by blast
qed

theorem serialize_parse_roundtrip_witness:
  "distinct (map fst [(''Customer Address'', ''5 Oak Ave''), (''Customer Name'', ''Jane Doe'')])
   \<and> set (map fst [(''Customer Address'', ''5 Oak Ave''), (''Customer Name'', ''Jane Doe'')])
       = set CSV_HEADERS
   \<and> roundtrip_value ''5 Oak Ave'' \<and> roundtrip_value ''Jane Doe''
   \<and> (\<exists>r. parse_csv_row
             (serialize_row [(''Customer Address'', ''5 Oak Ave''), (''Customer Name'', ''Jane Doe'')])
             = (Some r, None)
          \<and> map_of r = map_of [(''Customer Address'', ''5 Oak Ave''), (''Customer Name'', ''Jane Doe'')])"
proof -
  let ?row = "[(''Customer Address'', ''5 Oak Ave''), (''Customer Name'', ''Jane Doe'')]"
  have k: "distinct (map fst ?row)" "set (map fst ?row) = set CSV_HEADERS"
    by (auto simp add: CSV_HEADERS_def)
  have v: "\<forall>v \<in> set (map snd ?row). roundtrip_value v"
    by (simp add: roundtrip_value_examples)
  have e: "map str_lower (map (\<lambda>header. dict_get ?row header []) CSV_HEADERS)
             \<noteq> map str_lower CSV_HEADERS"
    by (simp add: CSV_HEADERS_def dict_get_def lower_examples lower_customer_name)
  from serialize_parse_roundtrip[OF k v e] k roundtrip_value_examples show ?thesis
    by blast
qed

section \<open>The claims about the retry loop\<close>

text \<open>
  Claim C1. For every \<^verbatim>\<open>max_attempts = K\<close> with \<open>K \<ge> 1\<close> and every inference stub that always
  returns and whose answers always fail parsing or validation (\<open>evaluate_answer\<close> gives
  a failure reason for each of them), \<^verbatim>\<open>request_csv_row\<close> calls \<^verbatim>\<open>model.query\<close> exactly \<open>K\<close>
  times and then raises \<^verbatim>\<open>ValueError\<close> with the message "Failed to obtain valid CSV row after
  K attempts: reason", where the reason is the failure reason of the answer to the last
  call.
\<close>

theorem request_csv_row_exhausts:
  assumes "1 \<le> K"
    and "\<forall>s p. \<exists>d s' err. query s img p = (Inr d, s') \<and> evaluate_answer d = Inl err"
  shows "\<exists>calls sf p d err s0.
           request_csv_row img query s K
             = (Inl (ValueError (''Failed to obtain valid CSV row after '' @ str_int K
                                  @ '' attempts: '' @ err)), calls, sf)
           \<and> int (length calls) = K
           \<and> last calls = (p, Inr d) \<and> query s0 img p = (Inr d, sf)
           \<and> evaluate_answer d = Inl err"
proof -
  from assms(1) have ne: "[0..<nat K] \<noteq> []" by simp
  from request_loop_exhausts[where query = query and img = img and K = K
      and attempts = "[0..<nat K]" and le = None and cp = CSV_PROMPT and calls = "[]" and s = s,
      OF assms(2)] ne
  obtain new sf p d err s0 where
    "request_loop query img K [0..<nat K] None CSV_PROMPT [] s
       = (Inl (ValueError (exhausted_message K (Some err))), new, sf)"
    "length new = length [0..<nat K]"
    "last new = (p, Inr d)" "query s0 img p = (Inr d, sf)" "evaluate_answer d = Inl err"
    by auto
  with assms(1) show ?thesis
    by (auto simp add: request_csv_row_def exhausted_message_def str_opt_def)
qed

theorem request_csv_row_exhausts_witness:
  "(1::int) \<le> 3
   \<and> evaluate_answer [(''answer'', [])] = Inl ''empty response''
   \<and> (\<exists>calls sf.
         request_csv_row () blank_model () 3
           = (Inl (ValueError ''Failed to obtain valid CSV row after 3 attempts: empty response''),
              calls, sf)
         \<and> length calls = 3)"
proof -
  have af: "\<forall>s p. \<exists>d s' err. blank_model s () p = (Inr d, s') \<and> evaluate_answer d = Inl err"
    by (simp add: blank_model_def evaluate_blank)
  have k: "(1::int) \<le> 3" by simp
  from request_csv_row_exhausts[where query = blank_model and img = "()" and K = 3 and s = "()",
      OF k af]
  obtain calls sf p d err s0 where
    r: "request_csv_row () blank_model () 3
          = (Inl (ValueError (''Failed to obtain valid CSV row after '' @ str_int 3
                               @ '' attempts: '' @ err)), calls, sf)"
    and n: "int (length calls) = 3"
    and q: "blank_model s0 () p = (Inr d, sf)" "evaluate_answer d = Inl err"
    by auto
  from q have "err = ''empty response''"
    by (auto simp add: blank_model_def evaluate_blank)
  with r n show ?thesis
    by (auto simp add: str_int_examples evaluate_blank)
qed

text \<open>
  Claim C7. If \<^verbatim>\<open>model.query\<close> raises on some attempt, the exception leaves
  \<^verbatim>\<open>request_csv_row\<close> at once. One iteration of the loop: when the call of the current
  attempt raises, the run ends with that exception, the call is the last entry of the
  log, and the remaining attempts are not touched. The whole run: an entry of the log
  that records a raised exception is the last entry, the outcome of the run is that
  exception and not the exhaustion failure, and the log is no longer than the budget.
\<close>

theorem query_exception_propagates:
  "(query s img (if 0 < attempt then retry_prompt last_error else current_prompt) = (Inl exc, s')
      \<longrightarrow> request_loop query img K (attempt # rest) last_error current_prompt calls s
            = (Inl (QueryRaised exc),
               calls @ [(if 0 < attempt then retry_prompt last_error else current_prompt, Inl exc)],
               s'))
   \<and> (request_csv_row img query s0 K = (outcome, log, sf) \<and> i < length log
        \<and> snd (log ! i) = Inl exc'
      \<longrightarrow> Suc i = length log \<and> outcome = Inl (QueryRaised exc') \<and> length log \<le> nat K)"
proof (intro conjI impI)
  assume "query s img (if 0 < attempt then retry_prompt last_error else current_prompt) = (Inl exc, s')"
  then show "request_loop query img K (attempt # rest) last_error current_prompt calls s
            = (Inl (QueryRaised exc),
               calls @ [(if 0 < attempt then retry_prompt last_error else current_prompt, Inl exc)],
               s')"
    by (rule request_loop_raise)
next
  assume a: "request_csv_row img query s0 K = (outcome, log, sf) \<and> i < length log
        \<and> snd (log ! i) = Inl exc'"
  then have "request_loop query img K [0..<nat K] None CSV_PROMPT [] s0 = (outcome, log, sf)"
    by (simp add: request_csv_row_def)
  from request_loop_log[OF this] obtain new where
    "log = new" "length new \<le> length [0..<nat K]"
    "\<forall>i exc. i < length new \<and> snd (new ! i) = Inl exc
                 \<longrightarrow> Suc i = length new \<and> outcome = Inl (QueryRaised exc)"
    by auto
  with a show "Suc i = length log" "outcome = Inl (QueryRaised exc')" "length log \<le> nat K"
    by auto
qed

theorem query_exception_propagates_witness:
  "failing_model 1 () (retry_prompt (Some ''empty response'')) = (Inl ''timeout'', 2)
   \<and> request_loop failing_model () 3 [1, 2] (Some ''empty response'') CSV_PROMPT
        [(CSV_PROMPT, Inr [(''answer'', [])])] 1
       = (Inl (QueryRaised ''timeout''),
          [(CSV_PROMPT, Inr [(''answer'', [])]),
           (retry_prompt (Some ''empty response''), Inl ''timeout'')],
          2)
   \<and> request_csv_row () failing_model 0 3
       = (Inl (QueryRaised ''timeout''),
          [(CSV_PROMPT, Inr [(''answer'', [])]),
           (retry_prompt (Some ''empty response''), Inl ''timeout'')],
          2)
   \<and> length [(CSV_PROMPT, Inr [(''answer'', [])] :: string + dict),
              (retry_prompt (Some ''empty response''), Inl ''timeout'')] = 2"
proof -
  have q: "failing_model 1 () (retry_prompt (Some ''empty response'')) = (Inl ''timeout'', 2)"
    by (simp add: failing_model_def)
  from query_exception_propagates[where query = failing_model and s = 1 and img = "()"
      and attempt = 1 and last_error = "Some ''empty response''" and current_prompt = CSV_PROMPT
      and exc = "''timeout''" and s' = 2 and K = 3 and rest = "[2]"
      and calls = "[(CSV_PROMPT, Inr [(''answer'', [])])]"] q
  have "request_loop failing_model () 3 [1, 2] (Some ''empty response'') CSV_PROMPT
        [(CSV_PROMPT, Inr [(''answer'', [])])] 1
       = (Inl (QueryRaised ''timeout''),
          [(CSV_PROMPT, Inr [(''answer'', [])]),
           (retry_prompt (Some ''empty response''), Inl ''timeout'')],
          2)"
    by simp
  with q failing_run show ?thesis
    by simp
qed

text \<open>
  Claim C10, as stated: for \<^verbatim>\<open>max_attempts\<close> 0 or any non-positive value the message is
  "Failed to obtain valid CSV row after 0 attempts: None". For a negative argument the
  message cites that argument, not 0.
\<close>

theorem request_negative_counterexample:
  "request_csv_row () blank_model () (-1)
     = (Inl (ValueError ''Failed to obtain valid CSV row after -1 attempts: None''), [], ())
   \<and> request_csv_row () blank_model () (-1)
     \<noteq> (Inl (ValueError ''Failed to obtain valid CSV row after 0 attempts: None''), [], ())"
  by (simp add: request_zero str_int_examples)

text \<open>
  Claim C10, amended: for every non-positive \<^verbatim>\<open>max_attempts\<close>, \<^verbatim>\<open>request_csv_row\<close> makes no
  inference call and raises \<^verbatim>\<open>ValueError\<close> with the message "Failed to obtain valid CSV row
  after <max_attempts> attempts: None"; for \<^verbatim>\<open>max_attempts = 0\<close> that is "Failed to obtain
  valid CSV row after 0 attempts: None".
\<close>

theorem request_nonpositive:
  assumes "max_attempts \<le> 0"
  shows "request_csv_row img query s max_attempts
           = (Inl (ValueError (''Failed to obtain valid CSV row after '' @ str_int max_attempts
                                @ '' attempts: None'')), [], s)
         \<and> (max_attempts = 0 \<longrightarrow>
              request_csv_row img query s max_attempts
                = (Inl (ValueError ''Failed to obtain valid CSV row after 0 attempts: None''), [], s))"
  using request_zero[OF assms, of img query s] by (auto simp add: str_int_examples)

theorem request_nonpositive_witness:
  "(0::int) \<le> 0 \<and> request_csv_row () blank_model () 0
     = (Inl (ValueError ''Failed to obtain valid CSV row after 0 attempts: None''), [], ())"
  using request_nonpositive[of 0 "()" blank_model "()"] by (simp add: str_int_examples)

end
